theory Spec2Isabelle
  imports
    Main
    "HOL-Library.Word"
    "HOL-Library.Char_ord"
    "HOL-Library.List_Lexorder"
begin

unbundle bit_operations_syntax

section \<open>Go values used by package memfs\<close>

text \<open>
  Bytes are 8-bit words. A Go \<open>int\<close> (and \<open>int64\<close>) is modelled as an integer, and
  \<open>wrap64\<close> is the two's complement wrap-around of a 64-bit signed result; it is written
  out wherever the source adds or subtracts a value the caller supplies.
\<close>

type_synonym byte = "8 word"

definition wrap64 :: "int \<Rightarrow> int" where
  "wrap64 x = signed_take_bit 63 x"

text \<open>
  A panic stops the program; the runtime panics of slice expressions and of \<open>make\<close>
  are values beside the ones the package raises itself.
\<close>

datatype panic =
    PanicErrOutOfBounds
  | PanicErrTooLarge
  | PanicNegativeCount
  | PanicSliceBounds
  | PanicMakeSliceLen
  | PanicIndexOutOfRange
  | PanicNilDereference

text \<open>
  Error values: the sentinels of \<open>io\<close>, \<open>io/fs\<close>, \<open>syscall\<close> and of the package, and
  \<open>fs.PathError\<close> with its fields Op, Path and Err.
\<close>

datatype error =
    EOF
  | ErrInvalid
  | ErrExist
  | ErrNotExist
  | ErrHasParent
  | errWriteAtInAppendMode
  | EISDIR
  | ENOTDIR
  | EINVAL
  | ENOENT
  | PathError string string error

subsection \<open>Slices of bytes\<close>

text \<open>
  A slice is its backing array from the slice's first element up to its capacity, split
  at the slice's length: \<open>content\<close> holds the elements below the length and \<open>spare\<close> the
  rest of the array. The nil slice has neither, and is told apart from an empty slice.
\<close>

record slice =
  content :: "byte list"
  spare :: "byte list"
  isnil :: bool

definition len :: "slice \<Rightarrow> nat" where
  "len s = length (content s)"

definition cap :: "slice \<Rightarrow> nat" where
  "cap s = length (content s) + length (spare s)"

definition arr :: "slice \<Rightarrow> byte list" where
  "arr s = content s @ spare s"

definition nil_slice :: slice where
  "nil_slice = \<lparr>content = [], spare = [], isnil = True\<rparr>"

text \<open>The largest allocation the runtime accepts (linux/amd64).\<close>

definition maxAlloc :: int where
  "maxAlloc = 2 ^ 48"

text \<open>\<open>make([]byte, n, c)\<close>: a zeroed array; the runtime panics on a bad length or capacity.\<close>

definition make' :: "int \<Rightarrow> int \<Rightarrow> panic + slice" where
  "make' n c =
     (if n < 0 \<or> c < n \<or> maxAlloc < c then Inl PanicMakeSliceLen
      else Inr \<lparr>content = replicate (nat n) 0, spare = replicate (nat c - nat n) 0, isnil = False\<rparr>)"

text \<open>\<open>s[:hi]\<close>: the bound may reach the capacity.\<close>

definition slice_to :: "slice \<Rightarrow> int \<Rightarrow> panic + slice" where
  "slice_to s hi =
     (if hi < 0 \<or> int (cap s) < hi then Inl PanicSliceBounds
      else Inr (s\<lparr>content := take (nat hi) (arr s), spare := drop (nat hi) (arr s)\<rparr>))"

text \<open>\<open>s[lo:]\<close>: the bound may not pass the length. The result is the checked bound.\<close>

definition slice_from :: "slice \<Rightarrow> int \<Rightarrow> panic + nat" where
  "slice_from s lo =
     (if lo < 0 \<or> int (len s) < lo then Inl PanicSliceBounds
      else Inr (nat lo))"

text \<open>
  \<open>copy(dst[lo:], src)\<close> for a checked bound \<open>lo\<close>: as many bytes as fit below the
  length of \<open>dst\<close>; the result is the count and the slice over the updated array.
\<close>

definition copy :: "slice \<Rightarrow> nat \<Rightarrow> byte list \<Rightarrow> nat \<times> slice" where
  "copy dst lo src =
     (let n = min (len dst - lo) (length src)
      in (n, dst\<lparr>content := take lo (content dst) @ take n src @ drop (lo + n) (content dst)\<rparr>))"

text \<open>\<open>zeroOutSlice(s[lo:])\<close> for a checked bound \<open>lo\<close>.\<close>

definition zeroOutSlice :: "slice \<Rightarrow> nat \<Rightarrow> slice" where
  "zeroOutSlice s lo =
     s\<lparr>content := take lo (content s) @ replicate (len s - lo) 0\<rparr>"

definition makeSlice :: "int \<Rightarrow> panic + slice" where
  "makeSlice n = (case make' n n of Inl _ \<Rightarrow> Inl PanicErrTooLarge | Inr s \<Rightarrow> Inr s)"

subsection \<open>Constants\<close>

definition smallBufferSize :: int where
  "smallBufferSize = 64"

definition MinRead :: int where
  "MinRead = 512"

definition O_APPEND :: int where
  "O_APPEND = 1024"

definition SeekStart :: int where
  "SeekStart = 0"

definition SeekCurrent :: int where
  "SeekCurrent = 1"

definition SeekEnd :: int where
  "SeekEnd = 2"

definition ModeDir :: "32 word" where
  "ModeDir = 0x80000000"

definition ModeSymlink :: "32 word" where
  "ModeSymlink = 0x08000000"

definition ModeType :: "32 word" where
  "ModeType = 0x8F280000"

section \<open>Files and directories\<close>

record FileInfo =
  name :: string
  size' :: int
  mode :: "32 word"

text \<open>
  A \<open>*File\<close> is an address of the heap, and every address holds a File, since a Go
  pointer never dangles. The \<open>entries\<close> map is kept as an association list with
  distinct keys; a nil map and an empty one behave alike in every operation here, and
  both are the empty list.
\<close>

type_synonym addr = nat

record File =
  off :: int
  buf :: slice
  flag :: int
  info :: FileInfo
  parent :: "addr option"
  cursor :: int
  entries :: "(string \<times> addr) list"

type_synonym heap = "addr \<Rightarrow> File"

section \<open>Path functions of the standard library\<close>

text \<open>\<open>strings.Split(s, "/")\<close> and \<open>strings.Join(elems, sep)\<close>.\<close>

fun Split :: "string \<Rightarrow> string list" where
  "Split [] = [[]]"
| "Split (c # cs) =
     (if c = CHR ''/'' then [] # Split cs
      else (c # hd (Split cs)) # tl (Split cs))"

fun strings_Join :: "string list \<Rightarrow> string \<Rightarrow> string" where
  "strings_Join [] sep = []"
| "strings_Join [e] sep = e"
| "strings_Join (e # es) sep = e @ sep @ strings_Join es sep"

text \<open>
  \<open>utf8.ValidString\<close>: the first byte of an encoding fixes its length and the range of
  the second byte; the bytes after that are continuation bytes.
\<close>

definition between :: "nat \<Rightarrow> nat \<Rightarrow> char \<Rightarrow> bool" where
  "between lo hi c = (lo \<le> of_char c \<and> (of_char c :: nat) \<le> hi)"

fun ValidString :: "string \<Rightarrow> bool" where
  "ValidString [] = True"
| "ValidString (c # cs) =
     (if (of_char c :: nat) < 0x80 then ValidString cs
      else if between 0xC2 0xDF c then
        (case cs of
           c1 # r \<Rightarrow> between 0x80 0xBF c1 \<and> ValidString r
         | _ \<Rightarrow> False)
      else if between 0xE0 0xEF c then
        (case cs of
           c1 # c2 # r \<Rightarrow>
             between (if of_char c = (0xE0::nat) then 0xA0 else 0x80)
                     (if of_char c = (0xED::nat) then 0x9F else 0xBF) c1
             \<and> between 0x80 0xBF c2 \<and> ValidString r
         | _ \<Rightarrow> False)
      else if between 0xF0 0xF4 c then
        (case cs of
           c1 # c2 # c3 # r \<Rightarrow>
             between (if of_char c = (0xF0::nat) then 0x90 else 0x80)
                     (if of_char c = (0xF4::nat) then 0x8F else 0xBF) c1
             \<and> between 0x80 0xBF c2 \<and> between 0x80 0xBF c3 \<and> ValidString r
         | _ \<Rightarrow> False)
      else False)"

text \<open>
  \<open>fs.ValidPath\<close>: valid UTF-8, and either the single element \<open>.\<close> or slash-separated
  elements none of which is empty, \<open>.\<close> or \<open>..\<close>.
\<close>

definition ValidElem :: "string \<Rightarrow> bool" where
  "ValidElem e = (e \<noteq> [] \<and> e \<noteq> ''.'' \<and> e \<noteq> ''..'')"

definition ValidPath :: "string \<Rightarrow> bool" where
  "ValidPath nm = (ValidString nm \<and> (nm = ''.'' \<or> list_all ValidElem (Split nm)))"

text \<open>\<open>filepath.Base\<close>, \<open>filepath.Clean\<close> and \<open>filepath.Join\<close> with the separator \<open>/\<close>.\<close>

definition Base :: "string \<Rightarrow> string" where
  "Base p =
     (if p = [] then ''.''
      else let p1 = rev (dropWhile (\<lambda>c. c = CHR ''/'') (rev p));
               p2 = rev (takeWhile (\<lambda>c. c \<noteq> CHR ''/'') (rev p1))
           in if p2 = [] then ''/'' else p2)"

definition clean_elem :: "bool \<Rightarrow> string list \<Rightarrow> string \<Rightarrow> string list" where
  "clean_elem rooted st e =
     (if e = [] \<or> e = ''.'' then st
      else if e = ''..'' then
        (case st of
           [] \<Rightarrow> (if rooted then [] else [e])
         | t # ts \<Rightarrow> (if t = ''..'' then e # st else ts))
      else e # st)"

definition Clean :: "string \<Rightarrow> string" where
  "Clean p =
     (let rooted = (p \<noteq> [] \<and> hd p = CHR ''/'');
          st = rev (foldl (clean_elem rooted) [] (Split p));
          out = (if rooted then ''/'' else []) @ strings_Join st ''/''
      in if out = [] then ''.'' else out)"

definition Join :: "string list \<Rightarrow> string" where
  "Join elem =
     (case dropWhile (\<lambda>e. e = []) elem of
        [] \<Rightarrow> []
      | es \<Rightarrow> Clean (strings_Join es ''/''))"

section \<open>File information\<close>

definition Name :: "File \<Rightarrow> string" where
  "Name fil = Base (name (info fil))"

definition IsDir :: "File \<Rightarrow> bool" where
  "IsDir fil = (mode (info fil) AND ModeDir \<noteq> 0)"

definition Type :: "File \<Rightarrow> 32 word" where
  "Type fil = mode (info fil) AND ModeType"

definition Size :: "File \<Rightarrow> int" where
  "Size fil = (if \<not> IsDir fil then int (len (buf fil)) else size' (info fil))"

definition Stat :: "File \<Rightarrow> FileInfo" where
  "Stat fil = (info fil)\<lparr>size' := Size fil\<rparr>"

text \<open>
  \<open>path\<close> follows the parent links. It has no result when the links never end, which
  is the case on a directory that was added to itself.
\<close>

partial_function (option) path :: "heap \<Rightarrow> File \<Rightarrow> string option" where
  "path h fil =
     (case parent fil of
        None \<Rightarrow> Some (Name fil)
      | Some pa \<Rightarrow>
          Option.bind (path h (h pa))
            (\<lambda>par. if par \<noteq> [] then Some (Join [par, Name fil]) else Some (Name fil)))"

declare path.simps [code]

definition pathErr :: "heap \<Rightarrow> File \<Rightarrow> string \<Rightarrow> error \<Rightarrow> error option" where
  "pathErr h fil op e = map_option (\<lambda>p. PathError op p e) (path h fil)"


section \<open>Constructors\<close>

definition WithFileOffset :: "int \<Rightarrow> File \<Rightarrow> File" where
  "WithFileOffset v fil = fil\<lparr>off := v\<rparr>"

definition WithFileAppend :: "File \<Rightarrow> File" where
  "WithFileAppend fil = fil\<lparr>flag := flag fil OR O_APPEND\<rparr>"

definition WithFileFlag :: "int \<Rightarrow> File \<Rightarrow> File" where
  "WithFileFlag v fil = fil\<lparr>flag := v\<rparr>"

text \<open>
  \<open>FileWith\<close> returns the new File (the caller holds the pointer) or the error
  \<open>fs.ErrInvalid\<close>, or it panics. The permission bits 0600 and 0700 of the source
  are octal: \<open>0x180\<close> and \<open>0x1C0\<close>.
\<close>

definition FileWith :: "string \<Rightarrow> slice \<Rightarrow> (File \<Rightarrow> File) list \<Rightarrow> panic + (error + File)" where
  "FileWith nm cont opts =
     (if \<not> ValidPath nm \<or> CHR ''/'' \<in> set nm then Inr (Inl ErrInvalid)
      else
        let fil = fold (\<lambda>opt f. opt f) opts
              \<lparr>off = 0, buf = cont, flag = 0,
               info = \<lparr>name = nm, size' = int (len cont), mode = 0x180\<rparr>,
               parent = None, cursor = 0, entries = []\<rparr>
        in if off fil < 0 \<or> off fil > int (len (buf fil)) then Inl PanicErrOutOfBounds
           else Inr (Inr fil))"

definition NewFile :: "string \<Rightarrow> (File \<Rightarrow> File) list \<Rightarrow> panic + (error + File)" where
  "NewFile nm opts =
     (case make' 0 MinRead of
        Inl pn \<Rightarrow> Inl pn
      | Inr b \<Rightarrow> FileWith nm b opts)"

definition NewDirectory :: "string \<Rightarrow> panic + (error + File)" where
  "NewDirectory nm =
     (case FileWith nm nil_slice [] of
        Inl pn \<Rightarrow> Inl pn
      | Inr (Inl e) \<Rightarrow> Inr (Inl e)
      | Inr (Inr dir) \<Rightarrow>
          Inr (Inr (dir\<lparr>info := (info dir)\<lparr>size' := 4096, mode := 0x1C0 OR ModeDir\<rparr>\<rparr>)))"

definition NewRoot :: File where
  "NewRoot =
     \<lparr>off = 0, buf = nil_slice, flag = 0,
      info = \<lparr>name = [], size' = 4096, mode = 0x1C0 OR ModeDir\<rparr>,
      parent = None, cursor = 0, entries = []\<rparr>"

section \<open>The buffer of a file\<close>

definition tryGrowByReslice :: "File \<Rightarrow> int \<Rightarrow> panic + (bool \<times> File)" where
  "tryGrowByReslice fil n =
     (if n \<le> wrap64 (int (len (buf fil)) - off fil) then Inr (True, fil)
      else if n \<le> wrap64 (int (cap (buf fil)) - off fil) then
        (case slice_to (buf fil) (wrap64 (off fil + n)) of
           Inl pn \<Rightarrow> Inl pn
         | Inr b \<Rightarrow> Inr (True, fil\<lparr>buf := b\<rparr>))
      else Inr (False, fil))"

definition grow :: "File \<Rightarrow> int \<Rightarrow> panic + File" where
  "grow fil n =
     (case tryGrowByReslice fil n of
        Inl pn \<Rightarrow> Inl pn
      | Inr (ok, fil1) \<Rightarrow>
          if ok then Inr fil1
          else if isnil (buf fil1) \<and> n \<le> smallBufferSize then
            (case make' n smallBufferSize of
               Inl pn \<Rightarrow> Inl pn
             | Inr b \<Rightarrow> Inr (fil1\<lparr>buf := b\<rparr>))
          else
            (case makeSlice (wrap64 (int (cap (buf fil1)) * 2 + n)) of
               Inl pn \<Rightarrow> Inl pn
             | Inr tmp \<Rightarrow> Inr (fil1\<lparr>buf := snd (copy tmp 0 (content (buf fil1)))\<rparr>)))"

text \<open>\<open>write\<close> of the source; the result is the count \<open>n\<close> and the file after the call.\<close>

definition write' :: "File \<Rightarrow> byte list \<Rightarrow> panic + (nat \<times> File)" where
  "write' fil p =
     (let fil0 = (if flag fil AND O_APPEND \<noteq> 0 then fil\<lparr>off := int (len (buf fil))\<rparr> else fil);
          l = int (len (buf fil0))
      in (case grow fil0 (int (length p)) of
           Inl pn \<Rightarrow> Inl pn
         | Inr fil1 \<Rightarrow>
             (case slice_from (buf fil1) (off fil1) of
                Inl pn \<Rightarrow> Inl pn
              | Inr lo \<Rightarrow>
                  (let (n, b) = copy (buf fil1) lo p;
                       off1 = off fil1 + int n;
                       l1 = (if off1 > l then off1 else l)
                   in (case slice_to b l1 of
                         Inl pn \<Rightarrow> Inl pn
                       | Inr b1 \<Rightarrow> Inr (n, fil1\<lparr>off := off1, buf := b1\<rparr>))))))"

text \<open>
  The exported methods. A method that fails on a directory builds a \<open>fs.PathError\<close> with
  the path of the file, so it has no result where \<open>path\<close> has none. The results are
  the values the method returns and the file after the call.
\<close>

definition Write :: "heap \<Rightarrow> File \<Rightarrow> byte list \<Rightarrow> (panic + (nat \<times> error option) \<times> File) option" where
  "Write h fil p =
     (if IsDir fil then
        map_option (\<lambda>e. Inr ((0, Some e), fil)) (pathErr h fil ''write'' EISDIR)
      else
        Some (case write' fil p of
                Inl pn \<Rightarrow> Inl pn
              | Inr (n, fil1) \<Rightarrow> Inr ((n, None), fil1)))"

definition WriteByte :: "heap \<Rightarrow> File \<Rightarrow> byte \<Rightarrow> (panic + error option \<times> File) option" where
  "WriteByte h fil b =
     (if IsDir fil then
        map_option (\<lambda>e. Inr (Some e, fil)) (pathErr h fil ''write'' EISDIR)
      else
        Some (case write' fil [b] of
                Inl pn \<Rightarrow> Inl pn
              | Inr (n, fil1) \<Rightarrow> Inr (None, fil1)))"

definition WriteAt :: "heap \<Rightarrow> File \<Rightarrow> byte list \<Rightarrow> int \<Rightarrow> (panic + (nat \<times> error option) \<times> File) option" where
  "WriteAt h fil p offset =
     (if IsDir fil then
        map_option (\<lambda>e. Inr ((0, Some e), fil)) (pathErr h fil ''write'' EISDIR)
      else if flag fil AND O_APPEND \<noteq> 0 then
        Some (Inr ((0, Some errWriteAtInAppendMode), fil))
      else
        Some
          (let prev = off fil;
               c = int (cap (buf fil));
               pl = int (length p)
           in case
                (if wrap64 (offset + pl) > c then
                   (case grow (fil\<lparr>off := c\<rparr>) (wrap64 (wrap64 (offset + pl) - int (len (buf fil)))) of
                      Inl pn \<Rightarrow> Inl pn
                    | Inr fil1 \<Rightarrow>
                        (case slice_to (buf fil1) (wrap64 (offset + pl)) of
                           Inl pn \<Rightarrow> Inl pn
                         | Inr b \<Rightarrow> Inr (fil1\<lparr>buf := b\<rparr>)))
                 else Inr fil)
              of
                Inl pn \<Rightarrow> Inl pn
              | Inr fil2 \<Rightarrow>
                  (case write' (fil2\<lparr>off := offset\<rparr>) p of
                     Inl pn \<Rightarrow> Inl pn
                   | Inr (n, fil3) \<Rightarrow> Inr ((n, None), fil3\<lparr>off := prev\<rparr>))))"

text \<open>
  \<open>Read\<close> into a destination of length \<open>k\<close>; the result holds the bytes copied into it.
\<close>

definition Read :: "heap \<Rightarrow> File \<Rightarrow> nat \<Rightarrow> (panic + (byte list \<times> error option) \<times> File) option" where
  "Read h fil k =
     (if IsDir fil then
        map_option (\<lambda>e. Inr (([], Some e), fil)) (pathErr h fil ''read'' EISDIR)
      else if 0 < k \<and> int (len (buf fil)) \<le> off fil then
        Some (Inr (([], Some EOF), fil))
      else
        Some (case slice_from (buf fil) (off fil) of
                Inl pn \<Rightarrow> Inl pn
              | Inr lo \<Rightarrow>
                  let data = take k (drop lo (content (buf fil)))
                  in Inr ((data, None), fil\<lparr>off := off fil + int (length data)\<rparr>)))"

definition Seek :: "heap \<Rightarrow> File \<Rightarrow> int \<Rightarrow> int \<Rightarrow> ((int \<times> error option) \<times> File) option" where
  "Seek h fil offset whence =
     (if IsDir fil then
        map_option (\<lambda>e. ((0, Some e), fil)) (pathErr h fil ''seek'' EISDIR)
      else
        let off1 =
              (if whence = SeekStart then offset
               else if whence = SeekCurrent then wrap64 (off fil + offset)
               else if whence = SeekEnd then wrap64 (int (len (buf fil)) + offset)
               else 0)
        in if off1 < 0 then
             map_option (\<lambda>e. ((0, Some e), fil)) (pathErr h fil ''seek'' EINVAL)
           else Some ((off1, None), fil\<lparr>off := off1\<rparr>))"

definition Truncate :: "heap \<Rightarrow> File \<Rightarrow> int \<Rightarrow> (panic + error option \<times> File) option" where
  "Truncate h fil sz =
     (if IsDir fil then
        map_option (\<lambda>e. Inr (Some e, fil)) (pathErr h fil ''truncate'' EISDIR)
      else if sz < 0 then
        map_option (\<lambda>e. Inr (Some e, fil)) (pathErr h fil ''truncate'' EINVAL)
      else
        Some
          (let prev = off fil;
               l = int (len (buf fil));
               c = int (cap (buf fil))
           in case
                (if sz = l then Inr fil
                 else if sz = c then
                   (case slice_to (buf fil) sz of
                      Inl pn \<Rightarrow> Inl pn
                    | Inr b \<Rightarrow> Inr (fil\<lparr>buf := b\<rparr>))
                 else if l < sz \<and> sz < c then
                   (case slice_to (buf fil) sz of
                      Inl pn \<Rightarrow> Inl pn
                    | Inr b \<Rightarrow> Inr (fil\<lparr>buf := b\<rparr>))
                 else if c < sz then
                   (case grow (fil\<lparr>off := c\<rparr>) (sz - l) of
                      Inl pn \<Rightarrow> Inl pn
                    | Inr fil1 \<Rightarrow>
                        (case slice_to (buf fil1) sz of
                           Inl pn \<Rightarrow> Inl pn
                         | Inr b \<Rightarrow> Inr (fil1\<lparr>buf := b\<rparr>)))
                 else
                   (case slice_from (buf fil) sz of
                      Inl pn \<Rightarrow> Inl pn
                    | Inr lo \<Rightarrow>
                        (case slice_to (zeroOutSlice (buf fil) lo) sz of
                           Inl pn \<Rightarrow> Inl pn
                         | Inr b \<Rightarrow> Inr (fil\<lparr>buf := b\<rparr>))))
              of
                Inl pn \<Rightarrow> Inl pn
              | Inr fil2 \<Rightarrow> Inr (None, fil2\<lparr>off := prev\<rparr>)))"

definition Grow :: "File \<Rightarrow> int \<Rightarrow> panic + File" where
  "Grow fil n =
     (if n < 0 then Inl PanicNegativeCount
      else if IsDir fil then Inr fil
      else
        let l = int (len (buf fil))
        in if wrap64 (l + n) \<le> int (cap (buf fil)) then Inr fil
           else
             (case makeSlice (wrap64 (l + n)) of
                Inl pn \<Rightarrow> Inl pn
              | Inr tmp \<Rightarrow>
                  (case slice_to (snd (copy tmp 0 (content (buf fil)))) l of
                     Inl pn \<Rightarrow> Inl pn
                   | Inr b \<Rightarrow> Inr (fil\<lparr>buf := b\<rparr>))))"


lemma Read_progress:
  assumes "Read h fil k = Some (Inr ((data, None), fil1))" and "0 < k"
  shows "int (len (buf fil1)) - off fil1 < int (len (buf fil)) - off fil \<and> off fil < int (len (buf fil))"
  using assms
  by (auto simp: Read_def pathErr_def slice_from_def len_def Let_def min_def
           split: if_splits sum.splits option.splits)

text \<open>
  \<open>io.ReadAll\<close> calls \<open>Read\<close> with the free space of its own buffer, which is never
  empty (512 bytes here), until \<open>Read\<close> returns an error, and turns \<open>io.EOF\<close> into
  success.
\<close>

function ReadAll_loop :: "heap \<Rightarrow> File \<Rightarrow> byte list \<Rightarrow> (panic + (byte list \<times> error option) \<times> File) option" where
  "ReadAll_loop h fil b =
     (case Read h fil 512 of
        None \<Rightarrow> None
      | Some (Inl pn) \<Rightarrow> Some (Inl pn)
      | Some (Inr ((data, Some e), fil1)) \<Rightarrow>
          Some (Inr ((b @ data, if e = EOF then None else Some e), fil1))
      | Some (Inr ((data, None), fil1)) \<Rightarrow> ReadAll_loop h fil1 (b @ data))"
  by pat_completeness auto

termination
proof (relation "measure (\<lambda>(h, fil, b). nat (int (len (buf fil)) - off fil))", goal_cases)
  case 1
  show ?case by simp
next
  case (2 h fil b x2 ba x y xa ya)
  then have "Read h fil 512 = Some (Inr ((xa, None), y))"
    by simp
  from Read_progress [OF this] show ?case
    by simp
qed

definition ReadAll :: "heap \<Rightarrow> File \<Rightarrow> (panic + (byte list \<times> error option) \<times> File) option" where
  "ReadAll h fil = ReadAll_loop h fil []"

section \<open>Directories\<close>

text \<open>\<open>FileInfo.Name\<close>, the name a directory entry shows.\<close>

definition FileInfo_Name :: "FileInfo \<Rightarrow> string" where
  "FileInfo_Name fi = Base (name fi)"

definition AddFile :: "heap \<Rightarrow> addr \<Rightarrow> addr \<Rightarrow> (error option \<times> heap) option" where
  "AddFile h fil file =
     (if \<not> IsDir (h fil) then
        Some (Some (PathError ''open'' (Join [name (info (h fil)), Name (h file)]) ENOTDIR), h)
      else if parent (h file) \<noteq> None then
        map_option (\<lambda>e. (Some e, h)) (pathErr h (h file) ''AddFile'' ErrHasParent)
      else if Type (h file) \<noteq> ModeDir \<and> Type (h file) \<noteq> 0 then
        Some (Some ErrInvalid, h)
      else
        let nm = Name (h file)
        in if map_of (entries (h fil)) nm \<noteq> None then Some (Some ErrExist, h)
           else
             let h1 = h(fil := (h fil)\<lparr>entries := (nm, file) # entries (h fil)\<rparr>);
                 h2 = h1(file := (h1 file)\<lparr>parent := Some fil\<rparr>)
             in Some (None, h2))"

text \<open>The entries of the listing: \<open>Stat\<close> of the child stored under each name.\<close>

fun dirEntries :: "heap \<Rightarrow> (string \<times> addr) list \<Rightarrow> string list \<Rightarrow> panic + FileInfo list" where
  "dirEntries h es [] = Inr []"
| "dirEntries h es (k # ks) =
     (case map_of es k of
        None \<Rightarrow> Inl PanicNilDereference
      | Some a \<Rightarrow>
          (case dirEntries h es ks of
             Inl pn \<Rightarrow> Inl pn
           | Inr r \<Rightarrow> Inr (Stat (h a) # r)))"

definition ReadDir :: "heap \<Rightarrow> File \<Rightarrow> int \<Rightarrow> (panic + (FileInfo list \<times> error option) \<times> File) option" where
  "ReadDir h fil n =
     (if \<not> IsDir fil then
        map_option (\<lambda>e. Inr (([], Some e), fil)) (pathErr h fil ''ReadDir'' ENOTDIR)
      else
        Some
          (let names = sort (map fst (entries fil));
               cnt = int (length (entries fil));
               n1 = (if n \<le> 0 then cnt - cursor fil else n)
           in if cnt \<le> cursor fil then Inr (([], Some EOF), fil)
              else
                let end0 = wrap64 (cursor fil + n1);
                    end1 = (if cnt < end0 then cnt else end0)
                in if wrap64 (end1 - cursor fil) < 0 then Inl PanicMakeSliceLen
                   else if cursor fil < 0 \<and> cursor fil < end1 then Inl PanicIndexOutOfRange
                   else
                     (case dirEntries h (entries fil)
                             (take (nat (end1 - cursor fil)) (drop (nat (cursor fil)) names)) of
                        Inl pn \<Rightarrow> Inl pn
                      | Inr ets \<Rightarrow> Inr ((ets, None), fil\<lparr>cursor := end1\<rparr>))))"

section \<open>Opening a path\<close>

lemma Split_not_Nil [simp]: "Split s \<noteq> []"
  by (induction s) auto

lemma Split_hd_tl: "Split s = hd (Split s) # tl (Split s)"
  by simp

lemma length_Split_pos [simp]: "0 < length (Split s)"
  by simp

lemma strings_Join_Cons:
  "es \<noteq> [] \<Longrightarrow> strings_Join (e # es) sep = e @ sep @ strings_Join es sep"
  by (cases es) auto

lemma Join_Split [simp]: "strings_Join (Split s) ''/'' = s"
proof (induction s)
  case Nil
  show ?case by simp
next
  case (Cons c cs)
  obtain p ps where sp: "Split cs = p # ps"
    by (cases "Split cs") auto
  show ?case
  proof (cases "c = CHR ''/''")
    case True
    with Cons show ?thesis by (simp add: strings_Join_Cons)
  next
    case False
    with Cons sp show ?thesis
      by (cases ps) auto
  qed
qed

lemma Split_no_slash: "CHR ''/'' \<notin> set s \<Longrightarrow> Split s = [s]"
  by (induction s) auto

lemma Split_append_slash:
  "CHR ''/'' \<notin> set a \<Longrightarrow> Split (a @ CHR ''/'' # b) = a # Split b"
  by (induction a) auto

lemma Split_elem_no_slash: "e \<in> set (Split s) \<Longrightarrow> CHR ''/'' \<notin> set e"
proof (induction s arbitrary: e)
  case Nil
  then show ?case by simp
next
  case (Cons c cs)
  obtain p ps where sp: "Split cs = p # ps"
    by (cases "Split cs") auto
  with Cons show ?case
    by (auto split: if_splits)
qed

lemma Split_strings_Join:
  "es \<noteq> [] \<Longrightarrow> \<forall>e \<in> set es. CHR ''/'' \<notin> set e \<Longrightarrow> Split (strings_Join es ''/'') = es"
proof (induction es)
  case Nil
  then show ?case by simp
next
  case (Cons e es)
  show ?case
  proof (cases es)
    case Nil
    with Cons.prems show ?thesis by (simp add: Split_no_slash)
  next
    case (Cons e' es')
    with Cons.IH Cons.prems have "Split (strings_Join es ''/'') = es"
      by simp
    with Cons Cons.prems show ?thesis
      using Split_append_slash [of e "strings_Join es ''/''"] by simp
  qed
qed

lemma length_hd_Split: "1 < length (Split s) \<Longrightarrow> length (hd (Split s)) < length s"
proof -
  assume a: "1 < length (Split s)"
  obtain p ps where sp: "Split s = p # ps"
    by (cases "Split s") auto
  with a obtain q qs where ps: "ps = q # qs"
    by (cases ps) auto
  have "s = strings_Join (p # q # qs) ''/''"
    using sp ps Join_Split [of s] by simp
  then show ?thesis using sp by simp
qed

lemma foldl_clean_elem_valid:
  "list_all ValidElem es \<Longrightarrow> foldl (clean_elem r) st es = rev es @ st"
  by (induction es arbitrary: st) (auto simp: clean_elem_def ValidElem_def)

lemma strings_Join_eq_Nil: "strings_Join es sep = [] \<Longrightarrow> e \<in> set es \<Longrightarrow> e = []"
  by (induction es sep rule: strings_Join.induct) auto

lemma hd_strings_Join: "e \<noteq> [] \<Longrightarrow> hd (strings_Join (e # es) sep) = hd e"
  by (cases es) auto

lemma Clean_valid:
  assumes "es \<noteq> []" "list_all ValidElem es" "\<forall>e \<in> set es. CHR ''/'' \<notin> set e"
  shows "Clean (strings_Join es ''/'') = strings_Join es ''/''"
proof -
  obtain e es' where es: "es = e # es'"
    using assms(1) by (cases es) auto
  have ne: "e \<noteq> []" and ns: "CHR ''/'' \<notin> set e"
    using assms es by (auto simp: ValidElem_def)
  then have "hd e \<noteq> CHR ''/''"
    by (cases e) auto
  then have nr: "hd (strings_Join es ''/'') \<noteq> CHR ''/''"
    using es ne by (simp add: hd_strings_Join)
  have nn: "strings_Join es ''/'' \<noteq> []"
    using strings_Join_eq_Nil [of es "''/''" e] es ne by auto
  show ?thesis
    using nr nn assms
    by (simp add: Clean_def Split_strings_Join foldl_clean_elem_valid)
qed

lemma Join_valid:
  assumes "es \<noteq> []" "list_all ValidElem es" "\<forall>e \<in> set es. CHR ''/'' \<notin> set e"
  shows "Join es = strings_Join es ''/''"
proof -
  obtain e es' where es: "es = e # es'"
    using assms(1) by (cases es) auto
  then have "e \<noteq> []"
    using assms(2) by (simp add: ValidElem_def)
  then have "dropWhile (\<lambda>e. e = []) es = es"
    using es by simp
  then show ?thesis
    using es Clean_valid [OF assms] by (simp add: Join_def)
qed

lemma Join_tl_Split:
  assumes "list_all ValidElem (Split s)" "1 < length (Split s)"
  shows "Join (tl (Split s)) = strings_Join (tl (Split s)) ''/''"
    and "s = hd (Split s) @ ''/'' @ Join (tl (Split s))"
proof -
  obtain p ps where sp: "Split s = p # ps"
    by (cases "Split s") auto
  with assms(2) have ps: "ps \<noteq> []"
    by auto
  have "\<forall>e \<in> set ps. CHR ''/'' \<notin> set e"
    using Split_elem_no_slash [of _ s] sp by auto
  moreover have "list_all ValidElem ps"
    using assms(1) sp by simp
  ultimately have j: "Join ps = strings_Join ps ''/''"
    using ps by (intro Join_valid) auto
  then show "Join (tl (Split s)) = strings_Join (tl (Split s)) ''/''"
    using sp by simp
  have "s = strings_Join (p # ps) ''/''"
    using sp Join_Split [of s] by simp
  then show "s = hd (Split s) @ ''/'' @ Join (tl (Split s))"
    using sp ps j by (simp add: strings_Join_Cons)
qed

lemma length_Join_tl_Split:
  assumes "ValidPath s" "s \<noteq> ''.''" "1 < length (Split s)"
  shows "length (Join (tl (Split s))) < length s"
proof -
  have "list_all ValidElem (Split s)"
    using assms by (simp add: ValidPath_def)
  from Join_tl_Split(2) [OF this assms(3)]
  have "length s = length (hd (Split s) @ ''/'' @ Join (tl (Split s)))"
    by simp
  then show ?thesis by simp
qed

text \<open>
  \<open>open\<close> of the source. \<open>filepath.Join\<close> is reached with the elements of a valid path
  only; the recursion ends because both recursive calls get a shorter name.
\<close>

function open' :: "heap \<Rightarrow> addr \<Rightarrow> string \<Rightarrow> error + addr" where
  "open' h dir nm =
     (if \<not> ValidPath nm then Inl (PathError ''open'' nm ErrInvalid)
      else if nm = ''.'' then Inr dir
      else
        let parts = Split nm
        in if 1 < length parts then
             (case open' h dir (hd parts) of
                Inl e \<Rightarrow> Inl e
              | Inr d \<Rightarrow> open' h d (Join (tl parts)))
           else
             (case map_of (entries (h dir)) nm of
                None \<Rightarrow> Inl (PathError ''open'' nm ErrNotExist)
              | Some fil \<Rightarrow> Inr fil))"
  by pat_completeness auto
termination
  by (relation "measure (\<lambda>(h, dir, nm). length nm)")
     (auto simp: length_hd_Split length_Join_tl_Split)


declare ReadAll_loop.simps [simp del]

declare open'.simps [simp del]

section \<open>Well-formed values and examples\<close>

text \<open>The nil slice has no array.\<close>

definition wf_slice :: "slice \<Rightarrow> bool" where
  "wf_slice s = (isnil s \<longrightarrow> content s = [] \<and> spare s = [])"

text \<open>
  Example values: a heap of root directories, and the file of
  \<open>FileWith("file", []byte{0, 1, 2, 3}, WithFileOffset(1))\<close>.
\<close>

definition ex_heap :: heap where
  "ex_heap = (\<lambda>a. NewRoot)"

definition ex_file :: File where
  "ex_file =
     \<lparr>off = 1, buf = \<lparr>content = [0, 1, 2, 3], spare = [], isnil = False\<rparr>, flag = 0,
      info = \<lparr>name = ''file'', size' = 4, mode = 0x180\<rparr>,
      parent = None, cursor = 0, entries = []\<rparr>"

text \<open>The file after a call that returned.\<close>

definition file_of :: "(panic + 'a \<times> File) option \<Rightarrow> File option" where
  "file_of r = (case r of Some (Inr (x, f)) \<Rightarrow> Some f | _ \<Rightarrow> None)"

section \<open>Basic facts\<close>

lemma wrap64_id: "- (2 ^ 63) \<le> x \<Longrightarrow> x < 2 ^ 63 \<Longrightarrow> wrap64 x = x"
  by (simp add: wrap64_def signed_take_bit_int_eq_self)

lemma ValidPath_file: "ValidPath ''file''"
  by (simp add: ValidPath_def ValidElem_def)

lemmas buf_defs =
  write'_def grow_def tryGrowByReslice_def slice_to_def slice_from_def make'_def makeSlice_def
  copy_def zeroOutSlice_def len_def cap_def arr_def smallBufferSize_def maxAlloc_def MinRead_def
  O_APPEND_def Let_def

lemma take_drop_length_take: "take n ys @ drop (length (take n ys)) ys = ys"
  by (cases "n \<le> length ys") (simp_all add: min_def)

lemma ReadAll_loop_content:
  "\<not> IsDir fil \<Longrightarrow> 0 \<le> off fil \<Longrightarrow>
   ReadAll_loop h fil b =
     Some (Inr ((b @ drop (nat (off fil)) (content (buf fil)), None),
                if off fil < int (len (buf fil)) then fil\<lparr>off := int (len (buf fil))\<rparr> else fil))"
proof (induction h fil b rule: ReadAll_loop.induct)
  case (1 h fil b)
  show ?case
  proof (cases "int (len (buf fil)) \<le> off fil")
    case True
    with 1 show ?thesis
      by (subst ReadAll_loop.simps) (simp add: Read_def len_def)
  next
    case False
    let ?data = "take 512 (drop (nat (off fil)) (content (buf fil)))"
    let ?fil1 = "fil\<lparr>off := off fil + int (length ?data)\<rparr>"
    have r: "Read h fil 512 = Some (Inr ((?data, None), ?fil1))"
      using False 1(2,3) by (simp add: Read_def slice_from_def Let_def)
    have d: "\<not> IsDir ?fil1" "0 \<le> off ?fil1"
      using 1(2,3) by (simp_all add: IsDir_def)
    have ih: "ReadAll_loop h ?fil1 (b @ ?data) =
       Some (Inr (((b @ ?data) @ drop (nat (off ?fil1)) (content (buf ?fil1)), None),
                if off ?fil1 < int (len (buf ?fil1)) then ?fil1\<lparr>off := int (len (buf ?fil1))\<rparr> else ?fil1))"
      using 1(1) [OF r refl refl refl refl d] .
    have "drop (nat (off fil) + length ?data) (content (buf fil)) =
        drop (length ?data) (drop (nat (off fil)) (content (buf fil)))"
      by (simp add: add.commute)
    then have e: "?data @ drop (nat (off fil) + length ?data) (content (buf fil))
        = drop (nat (off fil)) (content (buf fil))"
      by (simp only: take_drop_length_take)
    show ?thesis
      apply (subst ReadAll_loop.simps)
      apply (simp only: r ih option.case sum.case prod.case)
      using False 1(3) e
      apply (auto simp: len_def nat_add_distrib min_def)
      done
  qed
qed

section \<open>Reading and writing\<close>

text \<open>
  C1. The file of \<open>NewFile\<close> without options: after Write of 0,1,2,3, Seek to 2 bytes
  before the end, Write of 4,5 and Seek to the start, reading up to the end of the data
  gives exactly the bytes 0,1,4,5.
\<close>

theorem round_trip:
  "\<exists>f0 f1 f2 f3 f4 f5.
     NewFile ''file'' [] = Inr (Inr f0) \<and>
     Write h f0 [0, 1, 2, 3] = Some (Inr ((4, None), f1)) \<and>
     Seek h f1 (- 2) SeekEnd = Some ((2, None), f2) \<and>
     Write h f2 [4, 5] = Some (Inr ((2, None), f3)) \<and>
     Seek h f3 0 SeekStart = Some ((0, None), f4) \<and>
     ReadAll h f4 = Some (Inr (([0, 1, 4, 5], None), f5))"
  by (simp add: NewFile_def FileWith_def ValidPath_file Write_def IsDir_def ModeDir_def buf_defs
        wrap64_def Seek_def SeekEnd_def SeekStart_def SeekCurrent_def ReadAll_def
        ReadAll_loop_content)

text \<open>
  C2. The claim is that Write returns the length of its input for every cursor that
  Seek can produce. On the file of \<open>NewFile\<close> (capacity 512), after Seek to 1026 a Write
  of four bytes returns 2 and no error: \<open>grow\<close> allocates 2 * 512 + 4 = 1028 bytes, which
  leaves two bytes after the cursor. After Seek to 2000 a Write of one byte panics in the
  slice expression \<open>fil.buf[fil.off:]\<close>.
\<close>

theorem write_after_seek_is_short:
  "\<exists>f0 f1 f2 f3.
     NewFile ''file'' [] = Inr (Inr f0) \<and>
     Seek h f0 1026 SeekStart = Some ((1026, None), f1) \<and>
     Write h f1 [1, 2, 3, 4] = Some (Inr ((2, None), f2)) \<and>
     Seek h f0 2000 SeekStart = Some ((2000, None), f3) \<and>
     Write h f3 [1] = Some (Inl PanicSliceBounds)"
  by (simp add: NewFile_def FileWith_def ValidPath_file Write_def Seek_def IsDir_def ModeDir_def
        SeekStart_def buf_defs wrap64_def)

text \<open>
  C4. In append mode a Write puts its bytes at the end of the content, whatever the
  cursor is: the content grows by the input, all of it is written, and the cursor ends
  behind it (the allocation the growth may need has to be one the runtime accepts). And
  the file of \<open>FileWith("file", []byte{0, 1, 2, 3}, WithFileAppend)\<close>, after Seek to 2
  bytes before the end, Write of 4,5 and Seek to the start, reads in full as
  0,1,2,3,4,5.
\<close>

theorem append_mode_writes_at_end:
  "(\<not> IsDir fil \<and> flag fil AND O_APPEND \<noteq> 0 \<and> wf_slice (buf fil) \<and>
    2 * int (cap (buf fil)) + int (length p) \<le> maxAlloc \<longrightarrow>
      (\<exists>fil1. Write h fil p = Some (Inr ((length p, None), fil1)) \<and>
         content (buf fil1) = content (buf fil) @ p \<and>
         off fil1 = int (len (buf fil)) + int (length p))) \<and>
   (\<exists>f0 f1 f2 f3 f4.
      FileWith ''file'' \<lparr>content = [0, 1, 2, 3], spare = [], isnil = False\<rparr> [WithFileAppend]
        = Inr (Inr f0) \<and>
      Seek h f0 (- 2) SeekEnd = Some ((2, None), f1) \<and>
      Write h f1 [4, 5] = Some (Inr ((2, None), f2)) \<and>
      Seek h f2 0 SeekStart = Some ((0, None), f3) \<and>
      ReadAll h f3 = Some (Inr (([0, 1, 2, 3, 4, 5], None), f4)))"
proof (intro conjI impI)
  assume "\<not> IsDir fil \<and> flag fil AND O_APPEND \<noteq> 0 \<and> wf_slice (buf fil) \<and>
    2 * int (cap (buf fil)) + int (length p) \<le> maxAlloc"
  then show "\<exists>fil1. Write h fil p = Some (Inr ((length p, None), fil1)) \<and>
         content (buf fil1) = content (buf fil) @ p \<and>
         off fil1 = int (len (buf fil)) + int (length p)"
    by (simp add: Write_def buf_defs wrap64_id wf_slice_def nat_int_add split: sum.splits)
next
  show "\<exists>f0 f1 f2 f3 f4.
      FileWith ''file'' \<lparr>content = [0, 1, 2, 3], spare = [], isnil = False\<rparr> [WithFileAppend]
        = Inr (Inr f0) \<and>
      Seek h f0 (- 2) SeekEnd = Some ((2, None), f1) \<and>
      Write h f1 [4, 5] = Some (Inr ((2, None), f2)) \<and>
      Seek h f2 0 SeekStart = Some ((0, None), f3) \<and>
      ReadAll h f3 = Some (Inr (([0, 1, 2, 3, 4, 5], None), f4))"
    by (simp add: FileWith_def ValidPath_file WithFileAppend_def Write_def IsDir_def ModeDir_def
          buf_defs wrap64_def Seek_def SeekEnd_def SeekStart_def SeekCurrent_def ReadAll_def
          ReadAll_loop_content)
qed

theorem append_mode_writes_at_end_witness:
  "\<not> IsDir (WithFileAppend ex_file) \<and> flag (WithFileAppend ex_file) AND O_APPEND \<noteq> 0 \<and>
   off (WithFileAppend ex_file) = 1 \<and>
   (\<exists>fil1. Write ex_heap (WithFileAppend ex_file) [4, 5] = Some (Inr ((2, None), fil1)) \<and>
      content (buf fil1) = [0, 1, 2, 3, 4, 5] \<and> off fil1 = 6)"
  using append_mode_writes_at_end [of "WithFileAppend ex_file" "[4, 5]" ex_heap]
  by (simp add: WithFileAppend_def ex_file_def IsDir_def ModeDir_def O_APPEND_def wf_slice_def
        cap_def len_def maxAlloc_def eval_nat_numeral)

text \<open>
  C7. The claim is that WriteAt beyond the capacity grows the storage to fit exactly,
  without the doubling of sequential writes. WriteAt calls the same \<open>grow\<close>: writing
  three bytes at offset 1000 into the file of \<open>FileWith("file", []byte{0, 1, 2})\<close> leaves
  a capacity of 2 * 3 + 1000 = 1006, not 1003.
\<close>

theorem WriteAt_capacity_counterexample:
  "map_option (cap \<circ> buf)
     (file_of (WriteAt ex_heap
        (ex_file\<lparr>off := 0, buf := \<lparr>content = [0, 1, 2], spare = [], isnil = False\<rparr>\<rparr>)
        [3, 4, 5] 1000))
   = Some 1006"
  by (simp add: file_of_def ex_file_def WriteAt_def IsDir_def ModeDir_def buf_defs wrap64_def)

text \<open>
  C7, as the code has it. On a file that is not in append mode, WriteAt of \<open>p\<close> at an
  offset \<open>0 \<le> offset\<close> with \<open>offset + len(p)\<close> above the capacity writes all of \<open>p\<close>
  and keeps the cursor; the content is the old content up to the offset, zeros where the
  offset lies beyond it, and then \<open>p\<close>; the capacity afterwards is twice the old capacity
  plus \<open>offset + len(p)\<close> minus the old length, or 64 when the buffer was nil and
  \<open>offset + len(p)\<close> is at most 64.
\<close>

theorem WriteAt_beyond_capacity:
  assumes "\<not> IsDir fil" "flag fil AND O_APPEND = 0" "wf_slice (buf fil)" "0 \<le> offset"
    "int (cap (buf fil)) < offset + int (length p)"
    "2 * int (cap (buf fil)) + offset + int (length p) \<le> maxAlloc"
  shows "\<exists>fil1. WriteAt h fil p offset = Some (Inr ((length p, None), fil1)) \<and>
           content (buf fil1) =
             take (nat offset) (content (buf fil) @ replicate (nat offset - len (buf fil)) 0) @ p \<and>
           cap (buf fil1) =
             (if isnil (buf fil) \<and> offset + int (length p) \<le> 64 then 64
              else 2 * cap (buf fil) + (nat offset + length p - len (buf fil))) \<and>
           off fil1 = off fil"
  using assms
  apply (simp add: WriteAt_def buf_defs wrap64_id wf_slice_def nat_int_add split: sum.splits)
  apply (auto simp: min_def nat_int_add nat_add_distrib)
  done

theorem WriteAt_beyond_capacity_witness:
  "\<not> IsDir ex_file \<and> flag ex_file AND O_APPEND = 0 \<and> wf_slice (buf ex_file) \<and>
   int (cap (buf ex_file)) < 6 + int (length [7, 8 :: byte]) \<and>
   (\<exists>fil1. WriteAt ex_heap ex_file [7, 8] 6 = Some (Inr ((2, None), fil1)) \<and>
      content (buf fil1) = [0, 1, 2, 3, 0, 0, 7, 8] \<and> cap (buf fil1) = 12 \<and> off fil1 = 1)"
  using WriteAt_beyond_capacity [of ex_file 6 "[7, 8]" ex_heap]
  by (simp add: ex_file_def IsDir_def ModeDir_def O_APPEND_def wf_slice_def cap_def len_def
        maxAlloc_def eval_nat_numeral)

section \<open>Construction\<close>

text \<open>
  C9. For a valid name of one segment, any initial content and an offset \<open>v\<close> given by
  the offset option, \<open>FileWith\<close> panics with \<open>ErrOutOfBounds\<close> exactly when \<open>v\<close> is
  negative or greater than the length of the content, and otherwise returns the file
  with cursor \<open>v\<close>; \<open>NewFile\<close>, whose content is empty, does so exactly when \<open>v\<close> is
  not 0.
\<close>

theorem FileWith_offset_panics:
  assumes "ValidPath nm" "CHR ''/'' \<notin> set nm"
  shows "(FileWith nm cont [WithFileOffset v] = Inl PanicErrOutOfBounds \<longleftrightarrow> v < 0 \<or> int (len cont) < v) \<and>
         (\<not> (v < 0 \<or> int (len cont) < v) \<longrightarrow>
            (\<exists>fil. FileWith nm cont [WithFileOffset v] = Inr (Inr fil) \<and> off fil = v)) \<and>
         (NewFile nm [WithFileOffset v] = Inl PanicErrOutOfBounds \<longleftrightarrow> v < 0 \<or> 0 < v) \<and>
         (\<not> (v < 0 \<or> 0 < v) \<longrightarrow>
            (\<exists>fil. NewFile nm [WithFileOffset v] = Inr (Inr fil) \<and> off fil = v))"
  using assms
  by (auto simp: FileWith_def NewFile_def WithFileOffset_def make'_def MinRead_def maxAlloc_def len_def)

theorem FileWith_offset_panics_witness:
  "ValidPath ''file'' \<and> CHR ''/'' \<notin> set ''file'' \<and>
   FileWith ''file'' \<lparr>content = [0, 1, 2], spare = [], isnil = False\<rparr> [WithFileOffset 4]
     = Inl PanicErrOutOfBounds \<and>
   FileWith ''file'' \<lparr>content = [0, 1, 2], spare = [], isnil = False\<rparr> [WithFileOffset (- 1)]
     = Inl PanicErrOutOfBounds \<and>
   (\<exists>fil. FileWith ''file'' \<lparr>content = [0, 1, 2], spare = [], isnil = False\<rparr> [WithFileOffset 3]
      = Inr (Inr fil) \<and> off fil = 3) \<and>
   NewFile ''file'' [WithFileOffset 1] = Inl PanicErrOutOfBounds \<and>
   (\<exists>fil. NewFile ''file'' [WithFileOffset 0] = Inr (Inr fil) \<and> off fil = 0)"
  using FileWith_offset_panics [of "''file''" "\<lparr>content = [0, 1, 2], spare = [], isnil = False\<rparr>" 4]
    FileWith_offset_panics [of "''file''" "\<lparr>content = [0, 1, 2], spare = [], isnil = False\<rparr>" "- 1"]
    FileWith_offset_panics [of "''file''" "\<lparr>content = [0, 1, 2], spare = [], isnil = False\<rparr>" 3]
    FileWith_offset_panics [of "''file''" _ 1]
    FileWith_offset_panics [of "''file''" _ 0]
  by (simp add: ValidPath_file len_def)

section \<open>Seeking\<close>

text \<open>
  C10. On a file that is not a directory, Seek with a whence other than 0, 1 and 2
  succeeds for every offset: it returns 0 and no error and sets the cursor to 0.
\<close>

theorem Seek_unknown_whence:
  "\<not> IsDir fil \<Longrightarrow> whence \<noteq> SeekStart \<Longrightarrow> whence \<noteq> SeekCurrent \<Longrightarrow> whence \<noteq> SeekEnd \<Longrightarrow>
   Seek h fil offset whence = Some ((0, None), fil\<lparr>off := 0\<rparr>)"
  by (simp add: Seek_def)

theorem Seek_unknown_whence_witness:
  "\<not> IsDir ex_file \<and> (3::int) \<noteq> SeekStart \<and> (3::int) \<noteq> SeekCurrent \<and> (3::int) \<noteq> SeekEnd \<and>
   off ex_file = 1 \<and>
   Seek ex_heap ex_file 77 3 = Some ((0, None), ex_file\<lparr>off := 0\<rparr>)"
  using Seek_unknown_whence [of ex_file 3 ex_heap 77]
  by (simp add: ex_file_def IsDir_def ModeDir_def SeekStart_def SeekCurrent_def SeekEnd_def)

section \<open>Example directories\<close>

definition mk_dir :: "string \<Rightarrow> File" where
  "mk_dir nm =
     \<lparr>off = 0, buf = nil_slice, flag = 0,
      info = \<lparr>name = nm, size' = 4096, mode = 0x1C0 OR ModeDir\<rparr>,
      parent = None, cursor = 0, entries = []\<rparr>"

definition mk_file :: "string \<Rightarrow> byte list \<Rightarrow> File" where
  "mk_file nm bs =
     \<lparr>off = 0, buf = \<lparr>content = bs, spare = [], isnil = False\<rparr>, flag = 0,
      info = \<lparr>name = nm, size' = int (length bs), mode = 0x180\<rparr>,
      parent = None, cursor = 0, entries = []\<rparr>"

definition ex_nodes :: heap where
  "ex_nodes =
     (\<lambda>a. NewRoot)
       (0 := mk_dir ''dir'', 1 := mk_file ''file2'' [2], 2 := mk_file ''file0'' [0],
        3 := mk_file ''file1'' [1], 4 := mk_dir ''dir1'')"

text \<open>
  A tree: the root at address 5 holds the directory \<open>dir\<close> (address 0), which holds
  \<open>file0\<close> (address 2).
\<close>

definition ex_tree :: heap where
  "ex_tree =
     (\<lambda>a. NewRoot)
       (5 := NewRoot\<lparr>entries := [(''dir'', 0)]\<rparr>,
        0 := (mk_dir ''dir'')\<lparr>parent := Some 5, entries := [(''file0'', 2)]\<rparr>,
        2 := (mk_file ''file0'' [0])\<lparr>parent := Some 0\<rparr>)"

lemma mk_dir_NewDirectory: "ValidPath nm \<Longrightarrow> CHR ''/'' \<notin> set nm \<Longrightarrow> NewDirectory nm = Inr (Inr (mk_dir nm))"
  by (simp add: NewDirectory_def FileWith_def mk_dir_def nil_slice_def len_def)

lemma mk_file_FileWith:
  "ValidPath nm \<Longrightarrow> CHR ''/'' \<notin> set nm \<Longrightarrow>
   FileWith nm \<lparr>content = bs, spare = [], isnil = False\<rparr> [] = Inr (Inr (mk_file nm bs))"
  by (simp add: FileWith_def mk_file_def len_def)

lemma dirEntries_keys:
  "set ks \<subseteq> fst ` set es \<Longrightarrow>
   dirEntries h es ks = Inr (map (\<lambda>k. Stat (h (the (map_of es k)))) ks)"
proof (induction ks)
  case Nil
  show ?case by simp
next
  case (Cons k ks)
  then obtain a where "map_of es k = Some a"
    by (cases "map_of es k") (auto simp: map_of_eq_None_iff)
  with Cons show ?case by simp
qed

lemma FileInfo_Name_Stat: "FileInfo_Name (Stat fil) = Name fil"
  by (simp add: FileInfo_Name_def Stat_def Name_def)

definition keys_are_names :: "heap \<Rightarrow> File \<Rightarrow> bool" where
  "keys_are_names h fil = (\<forall>(k, a) \<in> set (entries fil). Name (h a) = k)"

lemma names_of_entries:
  assumes "keys_are_names h fil" "distinct (map fst (entries fil))" "set ks \<subseteq> fst ` set (entries fil)"
  shows "map (\<lambda>k. Name (h (the (map_of (entries fil) k)))) ks = ks"
proof -
  have "Name (h (the (map_of (entries fil) k))) = k" if "k \<in> set ks" for k
  proof -
    from that assms(3) obtain a where a: "(k, a) \<in> set (entries fil)"
      by auto
    with assms(2) have "map_of (entries fil) k = Some a"
      by simp
    with a assms(1) show ?thesis
      by (auto simp: keys_are_names_def)
  qed
  then show ?thesis
    by (simp add: map_idI)
qed

lemma ReadDir_all:
  assumes "IsDir fil" "n \<le> 0" "0 \<le> cursor fil" "cursor fil < int (length (entries fil))"
    "int (length (entries fil)) \<le> maxAlloc"
  shows "ReadDir h fil n =
     Some (Inr ((map (\<lambda>k. Stat (h (the (map_of (entries fil) k))))
                  (drop (nat (cursor fil)) (sort (map fst (entries fil)))), None),
                fil\<lparr>cursor := int (length (entries fil))\<rparr>))"
proof -
  let ?names = "sort (map fst (entries fil))"
  have s: "set (drop (nat (cursor fil)) ?names) \<subseteq> fst ` set (entries fil)"
    using set_drop_subset [of "nat (cursor fil)" ?names] by auto
  have t: "take (nat (int (length (entries fil)) - cursor fil)) (drop (nat (cursor fil)) ?names)
      = drop (nat (cursor fil)) ?names"
    using assms(3) by simp
  show ?thesis
    using assms
    by (simp add: ReadDir_def Let_def wrap64_id maxAlloc_def t dirEntries_keys [OF s])
qed

lemma ReadDir_end:
  assumes "IsDir fil" "int (length (entries fil)) \<le> cursor fil"
  shows "ReadDir h fil n = Some (Inr (([], Some EOF), fil))"
  using assms by (simp add: ReadDir_def Let_def)

section \<open>Path resolution\<close>

lemma not_between_slash [simp]: "128 \<le> lo \<Longrightarrow> \<not> between lo hi CHR ''/''"
  by (simp add: between_def)

lemma ValidString_append_slash:
  "ValidString (a @ CHR ''/'' # b) \<longleftrightarrow> ValidString a \<and> ValidString b"
proof (induction a rule: ValidString.induct)
  case 1
  show ?case by simp
next
  case (2 c cs)
  show ?case
  proof (cases cs)
    case Nil
    then show ?thesis by (simp split: list.split)
  next
    case c1: (Cons c1 r1)
    show ?thesis
    proof (cases r1)
      case Nil
      with c1 2 show ?thesis by (simp split: list.split)
    next
      case c2: (Cons c2 r2)
      show ?thesis
      proof (cases r2)
        case Nil
        with c1 c2 2 show ?thesis by (simp split: list.split)
      next
        case c3: (Cons c3 r3)
        with c1 c2 2 show ?thesis by (simp split: list.split)
      qed
    qed
  qed
qed

lemma ValidString_strings_Join:
  "ValidString (strings_Join es ''/'') \<longleftrightarrow> list_all ValidString es"
  by (induction es "''/''" rule: strings_Join.induct) (simp_all add: ValidString_append_slash)

fun walk :: "heap \<Rightarrow> addr \<Rightarrow> string list \<Rightarrow> addr option" where
  "walk h d [] = Some d"
| "walk h d (s # ss) =
     (case map_of (entries (h d)) s of
        None \<Rightarrow> None
      | Some c \<Rightarrow> walk h c ss)"

definition good_elem :: "string \<Rightarrow> bool" where
  "good_elem e = (ValidElem e \<and> ValidString e \<and> CHR ''/'' \<notin> set e)"

lemma good_elems_ValidPath:
  assumes "es \<noteq> []" "list_all good_elem es"
  shows "ValidPath (strings_Join es ''/'')" and "Split (strings_Join es ''/'') = es"
    and "strings_Join es ''/'' \<noteq> ''.''"
proof -
  have ns: "\<forall>e \<in> set es. CHR ''/'' \<notin> set e" and ve: "list_all ValidElem es"
    and vs: "list_all ValidString es"
    using assms(2) by (auto simp: good_elem_def list_all_iff)
  show sp: "Split (strings_Join es ''/'') = es"
    using assms(1) ns by (rule Split_strings_Join)
  show "ValidPath (strings_Join es ''/'')"
    using sp ve vs by (simp add: ValidPath_def ValidString_strings_Join)
  show "strings_Join es ''/'' \<noteq> ''.''"
  proof
    assume "strings_Join es ''/'' = ''.''"
    with sp have "es = [''.'']" by simp
    with ve show False by (simp add: ValidElem_def)
  qed
qed

lemma open'_single:
  assumes "good_elem e"
  shows "open' h d e =
    (case map_of (entries (h d)) e of
       None \<Rightarrow> Inl (PathError ''open'' e ErrNotExist)
     | Some fil \<Rightarrow> Inr fil)"
proof -
  have "ValidPath e" "Split e = [e]" "e \<noteq> ''.''"
    using good_elems_ValidPath [of "[e]"] assms by simp_all
  then show ?thesis
    by (subst open'.simps) simp
qed

lemma open'_strings_Join:
  assumes "list_all good_elem es" "k < length es" "walk h d (take k es) = Some a"
    "map_of (entries (h a)) (es ! k) = None"
  shows "open' h d (strings_Join es ''/'') = Inl (PathError ''open'' (es ! k) ErrNotExist)"
  using assms
proof (induction es arbitrary: d k)
  case Nil
  then show ?case by simp
next
  case (Cons e es)
  have ge: "good_elem e" and ges: "list_all good_elem es"
    using Cons.prems(1) by simp_all
  show ?case
  proof (cases es)
    case Nil
    with Cons.prems have "k = 0" "a = d" by auto
    with Nil Cons.prems ge show ?thesis
      by (simp add: open'_single)
  next
    case (Cons e' es')
    let ?nm = "strings_Join (e # es) ''/''"
    have ne: "es \<noteq> []" using Cons by simp
    have v: "ValidPath ?nm" and sp: "Split ?nm = e # es" and nd: "?nm \<noteq> ''.''"
      using good_elems_ValidPath [of "e # es"] Cons.prems(1) by simp_all
    have j: "Join es = strings_Join es ''/''"
      using ne ges by (intro Join_valid) (auto simp: good_elem_def list_all_iff)
    have unfold: "open' h d ?nm =
      (case open' h d e of Inl err \<Rightarrow> Inl err | Inr c \<Rightarrow> open' h c (strings_Join es ''/''))"
      using v nd sp ne j by (subst open'.simps) (simp add: Let_def cong: sum.case_cong)
    show ?thesis
    proof (cases k)
      case 0
      with Cons.prems have "map_of (entries (h d)) e = None" by simp
      with unfold ge 0 show ?thesis
        by (simp add: open'_single)
    next
      case (Suc k')
      with Cons.prems obtain c where c: "map_of (entries (h d)) e = Some c"
        and w: "walk h c (take k' es) = Some a"
        by (auto split: option.splits)
      have "open' h c (strings_Join es ''/'') = Inl (PathError ''open'' (es ! k') ErrNotExist)"
        using Cons.IH [OF ges _ w] Cons.prems Suc by simp
      with unfold ge c Suc show ?thesis
        by (simp add: open'_single)
    qed
  qed
qed

lemma ValidPath_good_elems:
  assumes "ValidPath nm" "1 < length (Split nm)"
  shows "list_all good_elem (Split nm)"
proof -
  have "nm \<noteq> ''.''" using assms(2) by auto
  then have ve: "list_all ValidElem (Split nm)" and vs: "ValidString nm"
    using assms(1) by (simp_all add: ValidPath_def)
  have "ValidString (strings_Join (Split nm) ''/'')"
    using vs by simp
  then have "list_all ValidString (Split nm)"
    by (simp only: ValidString_strings_Join)
  with ve show ?thesis
    using Split_elem_no_slash [of _ nm] by (auto simp: good_elem_def list_all_iff)
qed

text \<open>
  C8. The claim is that a failing resolution reports the remaining unresolved sub-path
  (the missing segment and all segments after it). In a directory without entries,
  opening \<open>missing1/missing2\<close> reports \<open>missing1\<close> alone.
\<close>

theorem open_path_context_counterexample:
  "open' ex_heap 0 ''missing1/missing2'' = Inl (PathError ''open'' ''missing1'' ErrNotExist)"
  using open'_strings_Join [of "[''missing1'', ''missing2'']" 0 ex_heap 0 0]
  by (simp add: good_elem_def ValidElem_def ex_heap_def NewRoot_def)

text \<open>
  C8, as the code has it. For a valid path of several segments whose segments before
  the \<open>k\<close>-th resolve and whose \<open>k\<close>-th segment is missing in the directory reached,
  \<open>open\<close> returns the not-found error whose path context is that missing segment
  alone.
\<close>

theorem open_reports_missing_segment:
  assumes "ValidPath nm" "1 < length (Split nm)" "k < length (Split nm)"
    "walk h d (take k (Split nm)) = Some a"
    "map_of (entries (h a)) (Split nm ! k) = None"
  shows "open' h d nm = Inl (PathError ''open'' (Split nm ! k) ErrNotExist)"
  using open'_strings_Join [OF ValidPath_good_elems [OF assms(1,2)] assms(3,4,5)]
  by simp

theorem open_reports_missing_segment_witness:
  "ValidPath ''dir/nope/x'' \<and> 1 < length (Split ''dir/nope/x'') \<and>
   walk ex_tree 5 (take 1 (Split ''dir/nope/x'')) = Some 0 \<and>
   map_of (entries (ex_tree 0)) (Split ''dir/nope/x'' ! 1) = None \<and>
   open' ex_tree 5 ''dir/nope/x'' = Inl (PathError ''open'' ''nope'' ErrNotExist)"
  using open_reports_missing_segment [of "''dir/nope/x''" 1 ex_tree 5 0]
  by (simp add: ValidPath_def ValidElem_def ex_tree_def mk_dir_def mk_file_def NewRoot_def)

lemma sort_distinct_keys:
  "distinct (map fst es) \<Longrightarrow> sort (map fst es) = sorted_list_of_set (fst ` set es)"
  using sorted_list_of_set_sort_remdups [of "map fst es"] by (simp add: distinct_remdups_id)

lemmas dir_defs =
  AddFile_def IsDir_def Type_def Name_def Base_def ModeDir_def ModeType_def mk_dir_def mk_file_def
  nil_slice_def Let_def

section \<open>Listing a directory\<close>

text \<open>
  C5. The claim is that ReadDir with \<open>n \<le> 0\<close> never fails, also when no entry
  remains. On a directory without entries, \<open>ReadDir(-1)\<close> returns no entries and the
  error \<open>io.EOF\<close>.
\<close>

theorem ReadDir_end_of_data_counterexample:
  "ReadDir ex_heap (mk_dir ''dir'') (- 1) = Some (Inr (([], Some EOF), mk_dir ''dir''))"
  using ReadDir_end [of "mk_dir ''dir''" ex_heap "- 1"]
  by (simp add: mk_dir_def IsDir_def ModeDir_def)

text \<open>
  C5, as the code has it. On a directory whose cursor has not reached the end, ReadDir
  with \<open>n \<le> 0\<close> returns, with no error, the entries from the cursor on in the sorted
  order of the names, which depends on the set of names only and not on the order of
  insertion, and moves the cursor to the end. When no entry remains (also in a directory
  without entries) it returns no entries and \<open>io.EOF\<close>. A directory that got the
  children \<open>file2\<close>, \<open>file0\<close>, \<open>file1\<close> in this order lists \<open>file0\<close>, \<open>file1\<close>,
  \<open>file2\<close>.
\<close>

theorem ReadDir_lists_sorted:
  "(IsDir fil \<and> n \<le> 0 \<and> 0 \<le> cursor fil \<and> cursor fil < int (length (entries fil)) \<and>
    int (length (entries fil)) \<le> maxAlloc \<and> distinct (map fst (entries fil)) \<and>
    keys_are_names h fil \<longrightarrow>
      (\<exists>ets. ReadDir h fil n
               = Some (Inr ((ets, None), fil\<lparr>cursor := int (length (entries fil))\<rparr>)) \<and>
         map FileInfo_Name ets
           = drop (nat (cursor fil)) (sorted_list_of_set (fst ` set (entries fil))))) \<and>
   (IsDir fil \<and> int (length (entries fil)) \<le> cursor fil \<longrightarrow>
      ReadDir h fil n = Some (Inr (([], Some EOF), fil))) \<and>
   (\<exists>h1 h2 h3 ets d.
      AddFile ex_nodes 0 1 = Some (None, h1) \<and>
      AddFile h1 0 2 = Some (None, h2) \<and>
      AddFile h2 0 3 = Some (None, h3) \<and>
      map fst (entries (h3 0)) = [''file1'', ''file0'', ''file2''] \<and>
      ReadDir h3 (h3 0) (- 1) = Some (Inr ((ets, None), d)) \<and>
      map FileInfo_Name ets = [''file0'', ''file1'', ''file2''])"
proof (intro conjI impI)
  assume a: "IsDir fil \<and> n \<le> 0 \<and> 0 \<le> cursor fil \<and> cursor fil < int (length (entries fil)) \<and>
    int (length (entries fil)) \<le> maxAlloc \<and> distinct (map fst (entries fil)) \<and>
    keys_are_names h fil"
  let ?ks = "drop (nat (cursor fil)) (sort (map fst (entries fil)))"
  have s: "set ?ks \<subseteq> fst ` set (entries fil)"
    using set_drop_subset [of "nat (cursor fil)" "sort (map fst (entries fil))"] by auto
  have "map FileInfo_Name (map (\<lambda>k. Stat (h (the (map_of (entries fil) k)))) ?ks) = ?ks"
    using names_of_entries [OF _ _ s, of h] a by (simp add: o_def FileInfo_Name_Stat)
  then show "\<exists>ets. ReadDir h fil n
               = Some (Inr ((ets, None), fil\<lparr>cursor := int (length (entries fil))\<rparr>)) \<and>
         map FileInfo_Name ets
           = drop (nat (cursor fil)) (sorted_list_of_set (fst ` set (entries fil)))"
    using a ReadDir_all [of fil n h] by (simp add: sort_distinct_keys)
next
  assume "IsDir fil \<and> int (length (entries fil)) \<le> cursor fil"
  then show "ReadDir h fil n = Some (Inr (([], Some EOF), fil))"
    by (simp add: ReadDir_end)
next
  show "\<exists>h1 h2 h3 ets d.
      AddFile ex_nodes 0 1 = Some (None, h1) \<and>
      AddFile h1 0 2 = Some (None, h2) \<and>
      AddFile h2 0 3 = Some (None, h3) \<and>
      map fst (entries (h3 0)) = [''file1'', ''file0'', ''file2''] \<and>
      ReadDir h3 (h3 0) (- 1) = Some (Inr ((ets, None), d)) \<and>
      map FileInfo_Name ets = [''file0'', ''file1'', ''file2'']"
    by (simp add: ex_nodes_def dir_defs ReadDir_def wrap64_def Stat_def Size_def FileInfo_Name_def)
qed

theorem ReadDir_lists_sorted_witness:
  "IsDir (ex_tree 0) \<and> cursor (ex_tree 0) < int (length (entries (ex_tree 0))) \<and>
   keys_are_names ex_tree (ex_tree 0) \<and>
   (\<exists>ets. ReadDir ex_tree (ex_tree 0) 0 = Some (Inr ((ets, None), (ex_tree 0)\<lparr>cursor := 1\<rparr>)) \<and>
      map FileInfo_Name ets = [''file0'']) \<and>
   ReadDir ex_tree ((ex_tree 0)\<lparr>cursor := 1\<rparr>) 0
     = Some (Inr (([], Some EOF), (ex_tree 0)\<lparr>cursor := 1\<rparr>))"
  using ReadDir_lists_sorted [of "ex_tree 0" 0 ex_tree]
    ReadDir_lists_sorted [of "(ex_tree 0)\<lparr>cursor := 1\<rparr>" 0 ex_tree]
  by (simp add: ex_tree_def dir_defs keys_are_names_def maxAlloc_def)

section \<open>Attaching a node\<close>

lemma path_cycle_None:
  assumes "parent (h a) = Some a"
  shows "path h (h a) = None"
proof -
  have "\<not> (h' = h \<and> fil = h a)" if "path h' fil = Some y" for h' fil y
  proof (rule path.raw_induct [where P = "\<lambda>h' fil y. \<not> (h' = h \<and> fil = h a)", OF _ that],
      goal_cases)
    case (1 path' h' fil y)
    show ?case
    proof
      assume e: "h' = h \<and> fil = h a"
      with 1(2) assms obtain par where "path' h (h a) = Some par"
        by (auto simp: bind_eq_Some_conv)
      with 1(1) show False by blast
    qed
  qed
  then show ?thesis
    by (cases "path h (h a)") auto
qed

text \<open>
  Where the path of the node can be computed, attaching a node that has a parent fails
  with \<open>ErrHasParent\<close> and leaves the heap as it is; and a node is an entry of its
  parent only, before and after every AddFile.
\<close>

lemma AddFile_has_parent:
  assumes "IsDir (h d)" "parent (h c) = Some p" "path h (h c) = Some s"
  shows "AddFile h d c = Some (Some (PathError ''AddFile'' s ErrHasParent), h)"
  using assms by (simp add: AddFile_def pathErr_def)

definition single_parent :: "heap \<Rightarrow> bool" where
  "single_parent h = (\<forall>d nm c. (nm, c) \<in> set (entries (h d)) \<longrightarrow> parent (h c) = Some d)"

lemma single_parent_unique:
  "single_parent h \<Longrightarrow> (nm, c) \<in> set (entries (h d)) \<Longrightarrow> (nm', c) \<in> set (entries (h d')) \<Longrightarrow> d = d'"
proof -
  assume "single_parent h" "(nm, c) \<in> set (entries (h d))" "(nm', c) \<in> set (entries (h d'))"
  then have "parent (h c) = Some d" "parent (h c) = Some d'"
    unfolding single_parent_def by blast+
  then show "d = d'" by simp
qed

lemma AddFile_single_parent:
  assumes "single_parent h" "AddFile h d c = Some (r, h')"
  shows "single_parent h'"
  using assms
  by (auto simp: AddFile_def pathErr_def single_parent_def Let_def split: if_splits)

text \<open>
  C6. The claim is that AddFile of a node that has a parent always fails with the
  already-has-parent error. AddFile accepts a directory as its own child; after that
  the parent links of the directory form a cycle, \<open>path\<close> has no result on it, and
  AddFile of this directory to another directory has no result either: it does not
  return the error.
\<close>

theorem AddFile_after_self_attach:
  "\<exists>h1. AddFile ex_nodes 0 0 = Some (None, h1) \<and> parent (h1 0) = Some 0 \<and>
     IsDir (h1 4) \<and> AddFile h1 4 0 = None"
proof -
  let ?h1 = "ex_nodes(0 := (mk_dir ''dir'')\<lparr>entries := [(''dir'', 0)], parent := Some 0\<rparr>)"
  have a: "AddFile ex_nodes 0 0 = Some (None, ?h1)"
    by (simp add: ex_nodes_def dir_defs)
  have p: "parent (?h1 0) = Some 0"
    by simp
  have d: "IsDir (?h1 4)"
    by (simp add: ex_nodes_def dir_defs)
  have "AddFile ?h1 4 0 = None"
    using path_cycle_None [of ?h1 0] d p by (simp add: AddFile_def pathErr_def)
  with a p d show ?thesis
    by blast
qed

section \<open>What the buffer operations keep\<close>

text \<open>
  \<open>byte_at\<close> reads the backing array and is zero beyond the capacity; a well-formed
  file has a buffer the runtime can hold and a cursor that is a non-negative Go
  \<open>int\<close>.
\<close>

definition byte_at :: "slice \<Rightarrow> nat \<Rightarrow> byte" where
  "byte_at s i = (if i < cap s then arr s ! i else 0)"

definition zero_from :: "slice \<Rightarrow> nat \<Rightarrow> bool" where
  "zero_from s k = (\<forall>i\<ge>k. byte_at s i = 0)"

definition wf_file :: "File \<Rightarrow> bool" where
  "wf_file fil =
     (wf_slice (buf fil) \<and> int (cap (buf fil)) \<le> maxAlloc \<and> 0 \<le> off fil \<and> off fil < 2 ^ 63)"

lemma wrap64_mod: "wrap64 x = (x + 2 ^ 63) mod 2 ^ 64 - 2 ^ 63"
  by (simp add: wrap64_def signed_take_bit_eq_take_bit_shift take_bit_eq_mod)

lemma wrap64_range: "- (2 ^ 63) \<le> wrap64 x \<and> wrap64 x < 2 ^ 63"
  unfolding wrap64_mod
  using pos_mod_bound [of "2 ^ 64" "x + 2 ^ 63"] pos_mod_sign [of "2 ^ 64" "x + 2 ^ 63"]
  by simp

lemma wrap64_over: "2 ^ 63 \<le> x \<Longrightarrow> x < 2 ^ 64 \<Longrightarrow> wrap64 x = x - 2 ^ 64"
proof -
  assume a: "2 ^ 63 \<le> x" "x < 2 ^ 64"
  have "(x + 2 ^ 63) mod 2 ^ 64 = (x + 2 ^ 63 - 2 ^ 64) mod 2 ^ 64"
    by (simp only: minus_mod_self2)
  also have "\<dots> = x + 2 ^ 63 - 2 ^ 64"
    using a by (intro mod_pos_pos_trivial) simp_all
  finally show ?thesis
    by (simp add: wrap64_mod)
qed

lemma arr_update: "arr (s\<lparr>content := c, spare := sp\<rparr>) = c @ sp"
  by (simp add: arr_def)

lemma cap_arr: "cap s = length (arr s)"
  by (simp add: cap_def arr_def)

lemma slice_to_Inr:
  assumes "slice_to s hi = Inr s1"
  shows "byte_at s1 = byte_at s" "cap s1 = cap s" "len s1 = nat hi" "isnil s1 = isnil s"
    "0 \<le> hi" "hi \<le> int (cap s)"
proof -
  from assms have s1: "s1 = s\<lparr>content := take (nat hi) (arr s), spare := drop (nat hi) (arr s)\<rparr>"
    and b: "0 \<le> hi" "hi \<le> int (cap s)"
    by (auto simp: slice_to_def split: if_splits)
  have a: "arr s1 = arr s"
    by (simp add: s1 arr_update)
  show "0 \<le> hi" "hi \<le> int (cap s)"
    by (rule b)+
  show c: "cap s1 = cap s"
    by (simp add: cap_arr a)
  show "byte_at s1 = byte_at s"
    by (simp add: byte_at_def fun_eq_iff a c)
  show "len s1 = nat hi"
    using b by (simp add: s1 len_def cap_arr)
  show "isnil s1 = isnil s"
    by (simp add: s1)
qed

lemma wf_slice_slice_to: "slice_to s hi = Inr s1 \<Longrightarrow> wf_slice s \<Longrightarrow> wf_slice s1"
  by (auto simp: slice_to_def wf_slice_def arr_def split: if_splits)

lemma nth_splice:
  assumes "lo + length B \<le> length A" "i < length A"
  shows "(take lo A @ B @ drop (lo + length B) A) ! i =
     (if lo \<le> i \<and> i < lo + length B then B ! (i - lo) else A ! i)"
  using assms by (auto simp: nth_append min_def)

lemma copy_spec:
  assumes "lo \<le> len dst" "copy dst lo src = (n, d1)"
  shows "n = min (len dst - lo) (length src)" "len d1 = len dst" "cap d1 = cap dst"
    "isnil d1 = isnil dst" "spare d1 = spare dst"
    "byte_at d1 i = (if lo \<le> i \<and> i < lo + n then src ! (i - lo) else byte_at dst i)"
proof -
  let ?n = "min (len dst - lo) (length src)"
  have n: "n = ?n" and d1: "d1 = dst\<lparr>content := take lo (content dst) @ take ?n src @ drop (lo + ?n) (content dst)\<rparr>"
    using assms(2) by (auto simp: copy_def Let_def)
  show "n = ?n" by (rule n)
  have l: "lo + length (take ?n src) \<le> length (content dst)"
    using assms(1) by (simp add: len_def)
  have lt: "length (take ?n src) = ?n" by simp
  show "len d1 = len dst" "cap d1 = cap dst"
    using assms(1) by (simp_all add: d1 len_def cap_def)
  show "isnil d1 = isnil dst" "spare d1 = spare dst"
    by (simp_all add: d1)
  have c: "content d1 ! j = (if lo \<le> j \<and> j < lo + n then src ! (j - lo) else content dst ! j)"
    if "j < length (content dst)" for j
  proof -
    have "take ?n src ! (j - lo) = src ! (j - lo)" if "lo \<le> j" "j < lo + ?n"
      using that by (intro nth_take) linarith
    then show ?thesis
      using nth_splice [OF l that] by (simp add: d1 n)
  qed
  have lc: "length (content d1) = length (content dst)"
    using assms(1) by (simp add: d1 len_def)
  have nb: "lo + n \<le> length (content dst)"
    using assms(1) by (simp add: n len_def)
  have sp: "spare d1 = spare dst"
    by (simp add: d1)
  show "byte_at d1 i = (if lo \<le> i \<and> i < lo + n then src ! (i - lo) else byte_at dst i)"
  proof (cases "i < length (content dst)")
    case True
    then show ?thesis
      using c [OF True] lc sp by (simp add: byte_at_def cap_def arr_def nth_append)
  next
    case False
    then show ?thesis
      using lc sp nb by (simp add: byte_at_def cap_def arr_def nth_append)
  qed
qed

lemma make'_Inr:
  assumes "make' n c = Inr s"
  shows "byte_at s i = 0" "len s = nat n" "cap s = nat c" "\<not> isnil s" "0 \<le> n" "n \<le> c" "c \<le> maxAlloc"
  using assms
  by (auto simp: make'_def byte_at_def cap_def len_def arr_def nth_append split: if_splits)

lemma makeSlice_Inr:
  assumes "makeSlice n = Inr s"
  shows "byte_at s i = 0" "len s = nat n" "cap s = nat n" "\<not> isnil s" "0 \<le> n" "n \<le> maxAlloc"
  using assms make'_Inr [of n n s]
  by (auto simp: makeSlice_def split: sum.splits)

lemma tryGrowByReslice_spec:
  assumes "int (cap (buf fil)) \<le> maxAlloc" "0 \<le> off fil" "off fil < 2 ^ 63" "0 \<le> n"
    "tryGrowByReslice fil n = Inr (ok, fil1)"
  shows "fil1 = fil\<lparr>buf := buf fil1\<rparr>" "byte_at (buf fil1) = byte_at (buf fil)"
    "len (buf fil) \<le> len (buf fil1)" "cap (buf fil1) = cap (buf fil)"
    "isnil (buf fil1) = isnil (buf fil)"
    "ok \<Longrightarrow> off fil + n \<le> int (len (buf fil1))"
    "\<not> ok \<Longrightarrow> fil1 = fil \<and> int (cap (buf fil)) - off fil < n"
proof -
  have lc: "len (buf fil) \<le> cap (buf fil)"
    by (simp add: len_def cap_def)
  have w1: "wrap64 (int (len (buf fil)) - off fil) = int (len (buf fil)) - off fil"
    using assms(1,2,3) lc by (intro wrap64_id) (simp_all add: maxAlloc_def)
  have w2: "wrap64 (int (cap (buf fil)) - off fil) = int (cap (buf fil)) - off fil"
    using assms(1,2,3) by (intro wrap64_id) (simp_all add: maxAlloc_def)
  consider (a) "n \<le> int (len (buf fil)) - off fil"
    | (b) "\<not> n \<le> int (len (buf fil)) - off fil" "n \<le> int (cap (buf fil)) - off fil"
    | (c) "\<not> n \<le> int (len (buf fil)) - off fil" "\<not> n \<le> int (cap (buf fil)) - off fil"
    by blast
  then have "fil1 = fil\<lparr>buf := buf fil1\<rparr> \<and> byte_at (buf fil1) = byte_at (buf fil) \<and>
    len (buf fil) \<le> len (buf fil1) \<and> cap (buf fil1) = cap (buf fil) \<and>
    isnil (buf fil1) = isnil (buf fil) \<and>
    (ok \<longrightarrow> off fil + n \<le> int (len (buf fil1))) \<and>
    (\<not> ok \<longrightarrow> fil1 = fil \<and> int (cap (buf fil)) - off fil < n)"
  proof cases
    case a
    with assms(5) w1 have "ok" "fil1 = fil"
      by (simp_all add: tryGrowByReslice_def)
    with a show ?thesis by simp
  next
    case b
    have w3: "wrap64 (off fil + n) = off fil + n"
      using assms(1,2,4) b(2) by (intro wrap64_id) (simp_all add: maxAlloc_def)
    from assms(5) b w1 w2 w3 obtain s1 where s1: "slice_to (buf fil) (off fil + n) = Inr s1"
      and r: "ok" "fil1 = fil\<lparr>buf := s1\<rparr>"
      by (auto simp: tryGrowByReslice_def split: sum.splits)
    from slice_to_Inr [OF s1] r b assms(2,4) show ?thesis
      by simp
  next
    case c
    with assms(5) w1 w2 have "\<not> ok" "fil1 = fil"
      by (simp_all add: tryGrowByReslice_def)
    with c show ?thesis by simp
  qed
  then show "fil1 = fil\<lparr>buf := buf fil1\<rparr>" "byte_at (buf fil1) = byte_at (buf fil)"
    "len (buf fil) \<le> len (buf fil1)" "cap (buf fil1) = cap (buf fil)"
    "isnil (buf fil1) = isnil (buf fil)"
    "ok \<Longrightarrow> off fil + n \<le> int (len (buf fil1))"
    "\<not> ok \<Longrightarrow> fil1 = fil \<and> int (cap (buf fil)) - off fil < n"
    by blast+
qed

lemma wf_slice_same: "isnil s1 = isnil s \<Longrightarrow> cap s1 = cap s \<Longrightarrow> wf_slice s \<Longrightarrow> wf_slice s1"
  by (auto simp: wf_slice_def cap_def)

lemma grow_spec:
  assumes "wf_slice (buf fil)" "int (cap (buf fil)) \<le> maxAlloc" "0 \<le> off fil" "off fil < 2 ^ 63"
    "0 \<le> n" "n < 2 ^ 63" "zero_from (buf fil) (len (buf fil))" "grow fil n = Inr fil1"
  shows "fil1 = fil\<lparr>buf := buf fil1\<rparr>" "byte_at (buf fil1) = byte_at (buf fil)"
    "len (buf fil) \<le> len (buf fil1)" "wf_slice (buf fil1)" "int (cap (buf fil1)) \<le> maxAlloc"
proof -
  from assms(8) obtain ok fil0 where t: "tryGrowByReslice fil n = Inr (ok, fil0)"
    by (auto simp: grow_def split: sum.splits)
  note ts = tryGrowByReslice_spec [OF assms(2,3,4,5) t]
  have "fil1 = fil\<lparr>buf := buf fil1\<rparr> \<and> byte_at (buf fil1) = byte_at (buf fil) \<and>
    len (buf fil) \<le> len (buf fil1) \<and> wf_slice (buf fil1) \<and> int (cap (buf fil1)) \<le> maxAlloc"
  proof (cases ok)
    case True
    with assms(8) t have "fil1 = fil0"
      by (simp add: grow_def)
    with ts assms(1,2) show ?thesis
      by (auto intro: wf_slice_same)
  next
    case False
    with ts have f0: "fil0 = fil" by simp
    show ?thesis
    proof (cases "isnil (buf fil) \<and> n \<le> smallBufferSize")
      case True
      with assms(8) t False f0 obtain b where b: "make' n smallBufferSize = Inr b"
        and f1: "fil1 = fil\<lparr>buf := b\<rparr>"
        by (auto simp: grow_def split: sum.splits)
      have e: "content (buf fil) = []" "spare (buf fil) = []"
        using True assms(1) by (simp_all add: wf_slice_def)
      then have "byte_at (buf fil) i = 0" for i
        by (simp add: byte_at_def cap_def)
      with make'_Inr [OF b] f1 e show ?thesis
        by (simp add: fun_eq_iff len_def wf_slice_def smallBufferSize_def)
    next
      case nn: False
      let ?m = "wrap64 (int (cap (buf fil)) * 2 + n)"
      from assms(8) t False f0 nn obtain tmp where tmp: "makeSlice ?m = Inr tmp"
        and f1: "fil1 = fil\<lparr>buf := snd (copy tmp 0 (content (buf fil)))\<rparr>"
        by (auto simp: grow_def split: sum.splits)
      note ms = makeSlice_Inr [OF tmp]
      have m: "?m = int (cap (buf fil)) * 2 + n"
      proof (cases "int (cap (buf fil)) * 2 + n < 2 ^ 63")
        case True
        then show ?thesis
          using assms(5) by (intro wrap64_id) simp_all
      next
        case False
        then have "?m = int (cap (buf fil)) * 2 + n - 2 ^ 64"
          using assms(2,6) by (intro wrap64_over) (simp_all add: maxAlloc_def)
        with ms(5) assms(2,6) show ?thesis
          by (simp add: maxAlloc_def)
      qed
      obtain k d1 where cp: "copy tmp 0 (content (buf fil)) = (k, d1)"
        by (cases "copy tmp 0 (content (buf fil))") auto
      have l0: "0 \<le> len tmp" by simp
      note cs = copy_spec [OF l0 cp]
      have lt: "len tmp = nat ?m" by (rule ms(2))
      have ge: "len (buf fil) \<le> len tmp"
        using lt m assms(5) by (simp add: len_def cap_def)
      have k: "k = len (buf fil)"
        using cs(1) ge by (simp add: len_def)
      have b1: "buf fil1 = d1"
        using f1 cp by simp
      have ba: "byte_at d1 i = byte_at (buf fil) i" for i
      proof (cases "i < len (buf fil)")
        case True
        then show ?thesis
          using cs(6) [of i] k by (simp add: byte_at_def cap_def arr_def len_def nth_append)
      next
        case False
        then have "byte_at (buf fil) i = 0"
          using assms(7) by (simp add: zero_from_def)
        with False show ?thesis
          using cs(6) [of i] k ms(1) by simp
      qed
      show ?thesis
        using b1 f1 ba cs ge ms by (simp add: fun_eq_iff wf_slice_def)
    qed
  qed
  then show "fil1 = fil\<lparr>buf := buf fil1\<rparr>" "byte_at (buf fil1) = byte_at (buf fil)"
    "len (buf fil) \<le> len (buf fil1)" "wf_slice (buf fil1)" "int (cap (buf fil1)) \<le> maxAlloc"
    by blast+
qed

text \<open>The position \<open>write\<close> puts its first byte at.\<close>

definition write_pos :: "File \<Rightarrow> nat" where
  "write_pos fil = (if flag fil AND O_APPEND \<noteq> 0 then len (buf fil) else nat (off fil))"

lemma slice_from_Inr: "slice_from s lo = Inr k \<Longrightarrow> 0 \<le> lo \<and> lo \<le> int (len s) \<and> k = nat lo"
  by (auto simp: slice_from_def split: if_splits)

lemma write'_spec:
  assumes "wf_file fil" "zero_from (buf fil) (len (buf fil))" "int (length p) \<le> maxAlloc"
    "write' fil p = Inr (n, fil2)"
  shows "fil2 = fil\<lparr>off := int (write_pos fil) + int n, buf := buf fil2\<rparr>"
    "n \<le> length p"
    "len (buf fil2) = max (len (buf fil)) (write_pos fil + n)"
    "byte_at (buf fil2) i =
       (if write_pos fil \<le> i \<and> i < write_pos fil + n then p ! (i - write_pos fil)
        else byte_at (buf fil) i)"
    "wf_file fil2"
proof -
  let ?pos = "write_pos fil"
  define fil0 where "fil0 = (if flag fil AND O_APPEND \<noteq> 0 then fil\<lparr>off := int (len (buf fil))\<rparr> else fil)"
  have wf: "wf_slice (buf fil)" "int (cap (buf fil)) \<le> maxAlloc" "0 \<le> off fil" "off fil < 2 ^ 63"
    using assms(1) by (simp_all add: wf_file_def)
  have lc: "len (buf fil) \<le> cap (buf fil)"
    by (simp add: len_def cap_def)
  have b0: "buf fil0 = buf fil" and o0: "off fil0 = int ?pos"
    and f0: "fil0 = fil\<lparr>off := int ?pos\<rparr>"
    using wf(3) by (simp_all add: fil0_def write_pos_def)
  have o0r: "0 \<le> off fil0" "off fil0 < 2 ^ 63"
    using wf lc by (auto simp: fil0_def maxAlloc_def)
  from assms(4) obtain fil1 lo k b b1 where g: "grow fil0 (int (length p)) = Inr fil1"
    and sf: "slice_from (buf fil1) (off fil1) = Inr lo"
    and cp: "copy (buf fil1) lo p = (k, b)"
    and st: "slice_to b (if off fil1 + int k > int (len (buf fil0)) then off fil1 + int k
                         else int (len (buf fil0))) = Inr b1"
    and res: "n = k" "fil2 = fil1\<lparr>off := off fil1 + int k, buf := b1\<rparr>"
    unfolding write'_def fil0_def [symmetric] Let_def
    by (auto split: sum.splits prod.splits)
  have pl: "0 \<le> int (length p)" "int (length p) < 2 ^ 63"
    using assms(3) by (simp_all add: maxAlloc_def)
  note gs = grow_spec [OF _ _ o0r pl _ g, unfolded b0, OF wf(1,2) assms(2)]
  have o1: "off fil1 = int ?pos"
    using gs(1) o0 by (metis File.select_convs(1) File.surjective File.update_convs(2))
  from slice_from_Inr [OF sf] o1 have lo: "lo = ?pos" and ple: "?pos \<le> len (buf fil1)"
    by simp_all
  note cs = copy_spec [OF _ cp, unfolded lo, OF ple]
  let ?l1 = "if off fil1 + int k > int (len (buf fil0)) then off fil1 + int k else int (len (buf fil0))"
  have l1: "nat ?l1 = max (len (buf fil)) (?pos + k)"
    using o1 b0 by (simp add: max_def nat_add_distrib)
  note ss = slice_to_Inr [OF st]
  have bf2: "buf fil2 = b1" and of2: "off fil2 = int ?pos + int n"
    using res o1 by simp_all
  show "n \<le> length p"
    using cs(1) res by simp
  show "len (buf fil2) = max (len (buf fil)) (?pos + n)"
    using ss(3) l1 bf2 res by simp
  show "byte_at (buf fil2) i =
       (if ?pos \<le> i \<and> i < ?pos + n then p ! (i - ?pos) else byte_at (buf fil) i)"
    using ss(1) cs(6) [of i] gs(2) bf2 res by simp
  show "fil2 = fil\<lparr>off := int ?pos + int n, buf := buf fil2\<rparr>"
    using res gs(1) f0 o1 bf2 by (metis File.surjective File.update_convs(1,2))
  have "?pos + n \<le> len (buf fil1)"
    using cs(1) ple res by simp
  then have "int ?pos + int n \<le> int (cap b1)"
    using ss(2) cs(3) by (simp add: len_def cap_def)
  moreover have "int (cap b1) \<le> maxAlloc"
    using ss(2) cs(3) gs(5) by simp
  moreover have "wf_slice b1"
    using wf_slice_slice_to [OF st] wf_slice_same [OF cs(4) cs(3) gs(4)] by simp
  ultimately show "wf_file fil2"
    using bf2 of2 by (simp add: wf_file_def maxAlloc_def)
qed

text \<open>
  Sequences of buffer operations. The file is followed together with the set of
  positions that were written and not cut off by a later truncate, and with the highest
  offset ever written. A panic ends the run. The arguments of well-formed operations
  are Go values: slices the runtime can hold and 64-bit integers.
\<close>

datatype bufop =
    OpWrite "byte list"
  | OpWriteAt "byte list" int
  | OpWriteByte byte
  | OpTruncate int
  | OpGrow int
  | OpSeek int int

fun wf_op :: "bufop \<Rightarrow> bool" where
  "wf_op (OpWrite p) = (int (length p) \<le> maxAlloc)"
| "wf_op (OpWriteAt p offset) = (int (length p) \<le> maxAlloc \<and> - (2 ^ 63) \<le> offset \<and> offset < 2 ^ 63)"
| "wf_op (OpWriteByte b) = True"
| "wf_op (OpTruncate sz) = (- (2 ^ 63) \<le> sz \<and> sz < 2 ^ 63)"
| "wf_op (OpGrow n) = (- (2 ^ 63) \<le> n \<and> n < 2 ^ 63)"
| "wf_op (OpSeek offset whence) = (- (2 ^ 63) \<le> offset \<and> offset < 2 ^ 63)"

type_synonym tracked = "File \<times> nat set \<times> nat"

fun step :: "heap \<Rightarrow> tracked \<Rightarrow> bufop \<Rightarrow> tracked option" where
  "step h (fil, W, hi) (OpWrite p) =
     (case Write h fil p of
        Some (Inr ((n, e), fil1)) \<Rightarrow>
          Some (fil1, W \<union> {write_pos fil ..< write_pos fil + n},
                if n = 0 then hi else max hi (write_pos fil + n))
      | _ \<Rightarrow> None)"
| "step h (fil, W, hi) (OpWriteByte b) =
     (case WriteByte h fil b of
        Some (Inr (e, fil1)) \<Rightarrow>
          (let n = (if e = None then nat (off fil1) - write_pos fil else 0)
           in Some (fil1, W \<union> {write_pos fil ..< write_pos fil + n},
                    if n = 0 then hi else max hi (write_pos fil + n)))
      | _ \<Rightarrow> None)"
| "step h (fil, W, hi) (OpWriteAt p offset) =
     (case WriteAt h fil p offset of
        Some (Inr ((n, e), fil1)) \<Rightarrow>
          Some (fil1, W \<union> {nat offset ..< nat offset + n},
                if n = 0 then hi else max hi (nat offset + n))
      | _ \<Rightarrow> None)"
| "step h (fil, W, hi) (OpTruncate sz) =
     (case Truncate h fil sz of
        Some (Inr (e, fil1)) \<Rightarrow> Some (fil1, if e = None then W \<inter> {..< nat sz} else W, hi)
      | _ \<Rightarrow> None)"
| "step h (fil, W, hi) (OpGrow n) =
     (case Grow fil n of
        Inr fil1 \<Rightarrow> Some (fil1, W, hi)
      | Inl pn \<Rightarrow> None)"
| "step h (fil, W, hi) (OpSeek offset whence) =
     (case Seek h fil offset whence of
        Some (r, fil1) \<Rightarrow> Some (fil1, W, hi)
      | None \<Rightarrow> None)"

fun run :: "heap \<Rightarrow> tracked \<Rightarrow> bufop list \<Rightarrow> tracked option" where
  "run h s [] = Some s"
| "run h s (op # ops) =
     (case step h s op of
        None \<Rightarrow> None
      | Some s1 \<Rightarrow> run h s1 ops)"

definition written_inv :: "File \<Rightarrow> nat set \<Rightarrow> bool" where
  "written_inv fil W =
     (wf_file fil \<and> (\<forall>i \<in> W. i < len (buf fil)) \<and> (\<forall>i. i \<notin> W \<longrightarrow> byte_at (buf fil) i = 0))"

lemma written_inv_zero_from: "written_inv fil W \<Longrightarrow> zero_from (buf fil) (len (buf fil))"
  unfolding written_inv_def zero_from_def
  by (metis not_le)

lemma write'_written_inv:
  assumes "written_inv fil W" "int (length p) \<le> maxAlloc" "write' fil p = Inr (n, fil1)"
  shows "written_inv fil1 (W \<union> {write_pos fil ..< write_pos fil + n})"
    and "off fil1 = int (write_pos fil) + int n"
proof -
  have wf: "wf_file fil"
    using assms(1) by (simp add: written_inv_def)
  note ws = write'_spec [OF wf written_inv_zero_from [OF assms(1)] assms(2,3)]
  show "off fil1 = int (write_pos fil) + int n"
    by (subst ws(1)) simp
  show "written_inv fil1 (W \<union> {write_pos fil ..< write_pos fil + n})"
    using assms(1) ws(3,5) ws(4)
    by (auto simp: written_inv_def)
qed

lemma Write_written_inv:
  assumes "written_inv fil W" "int (length p) \<le> maxAlloc" "Write h fil p = Some (Inr ((n, e), fil1))"
  shows "written_inv fil1 (W \<union> {write_pos fil ..< write_pos fil + n})"
proof (cases "IsDir fil")
  case True
  with assms(3) have "n = 0" "fil1 = fil"
    by (auto simp: Write_def)
  with assms(1) show ?thesis by simp
next
  case False
  with assms(3) have "write' fil p = Inr (n, fil1)"
    by (auto simp: Write_def split: sum.splits)
  from write'_written_inv(1) [OF assms(1,2) this] show ?thesis .
qed

lemma WriteByte_written_inv:
  assumes "written_inv fil W" "WriteByte h fil b = Some (Inr (e, fil1))"
  shows "written_inv fil1
     (W \<union> {write_pos fil ..< write_pos fil + (if e = None then nat (off fil1) - write_pos fil else 0)})"
proof (cases "IsDir fil")
  case True
  with assms(2) have "e \<noteq> None" "fil1 = fil"
    by (auto simp: WriteByte_def)
  with assms(1) show ?thesis by auto
next
  case False
  with assms(2) obtain n where w: "write' fil [b] = Inr (n, fil1)" and e: "e = None"
    by (auto simp: WriteByte_def split: sum.splits)
  have l: "int (length [b]) \<le> maxAlloc"
    by (simp add: maxAlloc_def)
  note wi = write'_written_inv [OF assms(1) l w]
  have "nat (off fil1) - write_pos fil = n"
    using wi(2) by simp
  with wi(1) e show ?thesis by simp
qed

lemma Seek_written_inv:
  assumes "written_inv fil W" "- (2 ^ 63) \<le> offset" "offset < 2 ^ 63"
    "Seek h fil offset whence = Some (r, fil1)"
  shows "written_inv fil1 W"
proof -
  have "fil1 = fil \<or> (\<exists>o1. fil1 = fil\<lparr>off := o1\<rparr> \<and> 0 \<le> o1 \<and> o1 < 2 ^ 63)"
    using assms(2,3,4) wrap64_range [of "off fil + offset"]
      wrap64_range [of "int (len (buf fil)) + offset"]
    by (auto simp: Seek_def Let_def split: if_splits)
  with assms(1) show ?thesis
    by (auto simp: written_inv_def wf_file_def)
qed

lemma zeroOutSlice_spec:
  assumes "lo \<le> len s"
  shows "byte_at (zeroOutSlice s lo) i = (if lo \<le> i \<and> i < len s then 0 else byte_at s i)"
    "len (zeroOutSlice s lo) = len s" "cap (zeroOutSlice s lo) = cap s"
    "isnil (zeroOutSlice s lo) = isnil s"
  using assms
  by (auto simp: zeroOutSlice_def byte_at_def cap_def len_def arr_def nth_append)

lemma realloc_spec:
  assumes "makeSlice m = Inr tmp" "int (len s) \<le> m" "zero_from s (len s)"
  shows "byte_at (snd (copy tmp 0 (content s))) = byte_at s"
    "len (snd (copy tmp 0 (content s))) = nat m"
    "cap (snd (copy tmp 0 (content s))) = nat m"
    "\<not> isnil (snd (copy tmp 0 (content s)))"
proof -
  note ms = makeSlice_Inr [OF assms(1)]
  obtain k d1 where cp: "copy tmp 0 (content s) = (k, d1)"
    by (cases "copy tmp 0 (content s)") auto
  have l0: "0 \<le> len tmp" by simp
  note cs = copy_spec [OF l0 cp]
  have k: "k = len s"
    using cs(1) ms(2) assms(2) by (simp add: len_def)
  have "byte_at d1 i = byte_at s i" for i
  proof (cases "i < len s")
    case True
    then show ?thesis
      using cs(6) [of i] k by (simp add: byte_at_def cap_def arr_def len_def nth_append)
  next
    case False
    then have "byte_at s i = 0"
      using assms(3) by (simp add: zero_from_def)
    with False show ?thesis
      using cs(6) [of i] k ms(1) by simp
  qed
  then show "byte_at (snd (copy tmp 0 (content s))) = byte_at s"
    by (simp add: cp fun_eq_iff)
  show "len (snd (copy tmp 0 (content s))) = nat m"
    "cap (snd (copy tmp 0 (content s))) = nat m"
    "\<not> isnil (snd (copy tmp 0 (content s)))"
    using cs ms by (simp_all add: cp)
qed

lemma Grow_written_inv:
  assumes "written_inv fil W" "Grow fil n = Inr fil1"
  shows "written_inv fil1 W"
proof (cases "IsDir fil \<or> wrap64 (int (len (buf fil)) + n) \<le> int (cap (buf fil))")
  case True
  with assms(2) have "fil1 = fil"
    by (auto simp: Grow_def Let_def split: if_splits)
  with assms(1) show ?thesis by simp
next
  case False
  let ?m = "wrap64 (int (len (buf fil)) + n)"
  from assms(2) False obtain tmp b where tmp: "makeSlice ?m = Inr tmp"
    and st: "slice_to (snd (copy tmp 0 (content (buf fil)))) (int (len (buf fil))) = Inr b"
    and f1: "fil1 = fil\<lparr>buf := b\<rparr>"
    by (auto simp: Grow_def Let_def split: if_splits sum.splits)
  have lm: "int (len (buf fil)) \<le> ?m"
    using False by (simp add: len_def cap_def)
  note rs = realloc_spec [OF tmp lm written_inv_zero_from [OF assms(1)]]
  note ss = slice_to_Inr [OF st]
  note ms = makeSlice_Inr [OF tmp]
  have "wf_slice b"
    using ss(4) rs(4) by (simp add: wf_slice_def)
  moreover have "int (cap b) \<le> maxAlloc"
    using ss(2) rs(3) ms(5,6) by simp
  ultimately show ?thesis
    using assms(1) f1 ss(1,3) rs(1)
    by (simp add: written_inv_def wf_file_def)
qed

lemma grow_off: "grow fil n = Inr fil1 \<Longrightarrow> off fil1 = off fil \<and> flag fil1 = flag fil"
  by (auto simp: grow_def tryGrowByReslice_def Let_def split: if_splits sum.splits)

lemma write'_negative_off:
  assumes "off fil < 0" "flag fil AND O_APPEND = 0"
  shows "write' fil p \<noteq> Inr r"
proof
  assume w: "write' fil p = Inr r"
  then obtain fil1 lo where g: "grow fil (int (length p)) = Inr fil1"
    and sf: "slice_from (buf fil1) (off fil1) = Inr lo"
    using assms(2) by (auto simp: write'_def Let_def split: sum.splits)
  from grow_off [OF g] slice_from_Inr [OF sf] assms(1) show False
    by simp
qed

definition buf_inv :: "slice \<Rightarrow> nat set \<Rightarrow> bool" where
  "buf_inv b W =
     (wf_slice b \<and> int (cap b) \<le> maxAlloc \<and> (\<forall>i \<in> W. i < len b) \<and>
      (\<forall>i. i \<notin> W \<longrightarrow> byte_at b i = 0))"

lemma written_inv_buf_inv:
  "written_inv fil W \<longleftrightarrow> buf_inv (buf fil) W \<and> 0 \<le> off fil \<and> off fil < 2 ^ 63"
  by (auto simp: written_inv_def wf_file_def buf_inv_def)

lemma buf_inv_slice_to:
  assumes "buf_inv s W" "slice_to s hi = Inr b" "int (len s) \<le> hi"
  shows "buf_inv b W"
  using assms slice_to_Inr [OF assms(2)] wf_slice_slice_to [OF assms(2)]
  by (auto simp: buf_inv_def)

lemma buf_inv_grow:
  assumes "buf_inv (buf fil) W" "0 \<le> off fil" "off fil < 2 ^ 63" "0 \<le> n" "n < 2 ^ 63"
    "grow fil n = Inr fil1"
  shows "buf_inv (buf fil1) W" "len (buf fil) \<le> len (buf fil1)"
proof -
  have z: "zero_from (buf fil) (len (buf fil))"
    using assms(1) unfolding buf_inv_def zero_from_def by (metis not_le)
  have wf: "wf_slice (buf fil)" "int (cap (buf fil)) \<le> maxAlloc"
    using assms(1) by (simp_all add: buf_inv_def)
  note gs = grow_spec [OF wf assms(2,3,4,5) z assms(6)]
  show "len (buf fil) \<le> len (buf fil1)"
    by (rule gs(3))
  show "buf_inv (buf fil1) W"
    using assms(1) gs(2,3,4,5) by (auto simp: buf_inv_def)
qed

lemma Truncate_written_inv:
  assumes "written_inv fil W" "sz < 2 ^ 63" "Truncate h fil sz = Some (Inr (e, fil1))"
  shows "written_inv fil1 (if e = None then W \<inter> {..< nat sz} else W)"
proof (cases "IsDir fil \<or> sz < 0")
  case True
  with assms(3) have "e \<noteq> None" "fil1 = fil"
    by (auto simp: Truncate_def pathErr_def split: if_splits)
  with assms(1) show ?thesis by auto
next
  case False
  let ?l = "int (len (buf fil))" and ?c = "int (cap (buf fil))"
  have bi: "buf_inv (buf fil) W" and orange: "0 \<le> off fil" "off fil < 2 ^ 63"
    using assms(1) by (simp_all add: written_inv_buf_inv)
  have lc: "?l \<le> ?c" by (simp add: len_def cap_def)
  have cm: "?c \<le> maxAlloc" using bi by (simp add: buf_inv_def)
  from assms(3) False obtain fil2 where e: "e = None" and f1: "fil1 = fil2\<lparr>off := off fil\<rparr>"
    and inner: "(if sz = ?l then Inr fil
       else if sz = ?c then
         (case slice_to (buf fil) sz of Inl pn \<Rightarrow> Inl pn | Inr b \<Rightarrow> Inr (fil\<lparr>buf := b\<rparr>))
       else if ?l < sz \<and> sz < ?c then
         (case slice_to (buf fil) sz of Inl pn \<Rightarrow> Inl pn | Inr b \<Rightarrow> Inr (fil\<lparr>buf := b\<rparr>))
       else if ?c < sz then
         (case grow (fil\<lparr>off := ?c\<rparr>) (sz - ?l) of
            Inl pn \<Rightarrow> Inl pn
          | Inr fil1 \<Rightarrow>
              (case slice_to (buf fil1) sz of Inl pn \<Rightarrow> Inl pn | Inr b \<Rightarrow> Inr (fil1\<lparr>buf := b\<rparr>)))
       else
         (case slice_from (buf fil) sz of
            Inl pn \<Rightarrow> Inl pn
          | Inr lo \<Rightarrow>
              (case slice_to (zeroOutSlice (buf fil) lo) sz of
                 Inl pn \<Rightarrow> Inl pn
               | Inr b \<Rightarrow> Inr (fil\<lparr>buf := b\<rparr>)))) = Inr fil2"
    by (auto simp: Truncate_def Let_def split: sum.splits)
  have "buf_inv (buf fil2) (W \<inter> {..< nat sz})"
  proof -
    consider (same) "sz = ?l" | (up) "sz \<noteq> ?l" "?l < sz" "sz \<le> ?c" | (beyond) "?c < sz"
      | (down) "sz < ?l"
      by linarith
    then show ?thesis
    proof cases
      case same
      with inner have "fil2 = fil" by simp
      moreover have "W \<inter> {..< nat sz} = W"
        using bi same by (auto simp: buf_inv_def)
      ultimately show ?thesis using bi by simp
    next
      case up
      with inner obtain b where st: "slice_to (buf fil) sz = Inr b" and f2: "fil2 = fil\<lparr>buf := b\<rparr>"
        by (auto split: if_splits sum.splits)
      have "W \<inter> {..< nat sz} = W"
        using bi up by (auto simp: buf_inv_def)
      with buf_inv_slice_to [OF bi st] up f2 show ?thesis by simp
    next
      case beyond
      with inner lc obtain fg b where g: "grow (fil\<lparr>off := ?c\<rparr>) (sz - ?l) = Inr fg"
        and st: "slice_to (buf fg) sz = Inr b" and f2: "fil2 = fg\<lparr>buf := b\<rparr>"
        by (auto split: if_splits sum.splits)
      have "buf_inv (buf (fil\<lparr>off := ?c\<rparr>)) W"
        using bi by simp
      note bg = buf_inv_grow [OF this _ _ _ _ g]
      have bfg: "buf_inv (buf fg) W" and lg: "len (buf fil) \<le> len (buf fg)"
        using bg beyond lc cm assms(2) by (simp_all add: maxAlloc_def)
      note ss = slice_to_Inr [OF st]
      have "int (len (buf fg)) \<le> sz \<or> sz < int (len (buf fg))" by linarith
      have w: "W \<inter> {..< nat sz} = W"
        using bi beyond lc by (auto simp: buf_inv_def)
      have "buf_inv b W"
        using bfg ss wf_slice_slice_to [OF st] bi beyond lc
        by (auto simp: buf_inv_def)
      with w f2 show ?thesis by simp
    next
      case down
      with inner lc obtain lo b where sf: "slice_from (buf fil) sz = Inr lo"
        and st: "slice_to (zeroOutSlice (buf fil) lo) sz = Inr b" and f2: "fil2 = fil\<lparr>buf := b\<rparr>"
        by (auto split: if_splits sum.splits)
      from slice_from_Inr [OF sf] have lo: "lo = nat sz" "lo \<le> len (buf fil)" "0 \<le> sz"
        by auto
      note zs = zeroOutSlice_spec [OF lo(2)]
      note ss = slice_to_Inr [OF st]
      have "wf_slice b"
        using ss(4) ss(2) zs(3,4) bi lo by (auto simp: buf_inv_def wf_slice_def cap_def)
      moreover have "int (cap b) \<le> maxAlloc"
        using ss(2) zs(3) cm by simp
      moreover have "\<forall>i \<in> W \<inter> {..< nat sz}. i < len b"
        using ss(3) by simp
      moreover have "byte_at b i = 0" if "i \<notin> W \<inter> {..< nat sz}" for i
      proof (cases "i \<in> W")
        case False
        then show ?thesis
          using ss(1) zs(1) [of i] bi by (simp add: buf_inv_def)
      next
        case True
        with that have "nat sz \<le> i" by auto
        moreover have "i < len (buf fil)"
          using True bi by (simp add: buf_inv_def)
        ultimately show ?thesis
          using ss(1) zs(1) [of i] lo by simp
      qed
      ultimately show ?thesis
        using f2 by (simp add: buf_inv_def)
    qed
  qed
  with e f1 orange show ?thesis
    by (simp add: written_inv_buf_inv)
qed

lemma buf_inv_slice_to_above:
  assumes "buf_inv s W" "slice_to s hi = Inr b" "\<forall>i \<in> W. int i < hi"
  shows "buf_inv b W"
  using assms slice_to_Inr [OF assms(2)] wf_slice_slice_to [OF assms(2)]
  by (auto simp: buf_inv_def)

lemma WriteAt_written_inv:
  assumes "written_inv fil W" "int (length p) \<le> maxAlloc" "offset < 2 ^ 63"
    "WriteAt h fil p offset = Some (Inr ((n, e), fil1))"
  shows "written_inv fil1 (W \<union> {nat offset ..< nat offset + n})"
proof (cases "IsDir fil \<or> flag fil AND O_APPEND \<noteq> 0")
  case True
  with assms(4) have "n = 0" "fil1 = fil"
    by (auto simp: WriteAt_def pathErr_def split: if_splits)
  with assms(1) show ?thesis by simp
next
  case False
  let ?l = "int (len (buf fil))" and ?c = "int (cap (buf fil))"
  let ?v = "wrap64 (offset + int (length p))"
  have bi: "buf_inv (buf fil) W" and orange: "0 \<le> off fil" "off fil < 2 ^ 63"
    using assms(1) by (simp_all add: written_inv_buf_inv)
  have lc: "?l \<le> ?c" by (simp add: len_def cap_def)
  have cm: "?c \<le> maxAlloc" using bi by (simp add: buf_inv_def)
  from assms(4) False obtain fil2 fil3 where
    pre: "(if ?v > ?c then
             (case grow (fil\<lparr>off := ?c\<rparr>) (wrap64 (?v - ?l)) of
                Inl pn \<Rightarrow> Inl pn
              | Inr fg \<Rightarrow>
                  (case slice_to (buf fg) ?v of
                     Inl pn \<Rightarrow> Inl pn
                   | Inr b \<Rightarrow> Inr (fg\<lparr>buf := b\<rparr>)))
           else Inr fil) = Inr fil2"
    and w: "write' (fil2\<lparr>off := offset\<rparr>) p = Inr (n, fil3)"
    and f1: "fil1 = fil3\<lparr>off := off fil\<rparr>"
    by (auto simp: WriteAt_def Let_def split: sum.splits)
  have b2: "buf_inv (buf fil2) W \<and> flag fil2 = flag fil"
  proof (cases "?v > ?c")
    case nogrow: False
    with pre have "fil2 = fil" by simp
    with bi show ?thesis by simp
  next
    case True
    with pre obtain fg b where g: "grow (fil\<lparr>off := ?c\<rparr>) (wrap64 (?v - ?l)) = Inr fg"
      and st: "slice_to (buf fg) ?v = Inr b" and f2: "fil2 = fg\<lparr>buf := b\<rparr>"
      by (auto split: sum.splits)
    have vr: "?v < 2 ^ 63"
      using wrap64_range [of "offset + int (length p)"] by simp
    have n': "wrap64 (?v - ?l) = ?v - ?l"
      using True lc vr by (intro wrap64_id) simp_all
    have "buf_inv (buf (fil\<lparr>off := ?c\<rparr>)) W"
      using bi by simp
    note bg = buf_inv_grow [OF this _ _ _ _ g]
    have bfg: "buf_inv (buf fg) W"
      using bg(1) n' True lc cm vr by (simp add: maxAlloc_def)
    have "\<forall>i \<in> W. int i < ?v"
      using bi True lc by (auto simp: buf_inv_def)
    from buf_inv_slice_to_above [OF bfg st this] grow_off [OF g] f2 show ?thesis
      by simp
  qed
  have na: "flag (fil2\<lparr>off := offset\<rparr>) AND O_APPEND = 0"
    using b2 False by simp
  have o0: "0 \<le> offset"
  proof (rule ccontr)
    assume "\<not> 0 \<le> offset"
    then have "off (fil2\<lparr>off := offset\<rparr>) < 0" by simp
    from write'_negative_off [OF this na] w show False by blast
  qed
  have "written_inv (fil2\<lparr>off := offset\<rparr>) W"
    using b2 o0 assms(3) by (simp add: written_inv_buf_inv)
  note wi = write'_written_inv(1) [OF this assms(2) w]
  have "write_pos (fil2\<lparr>off := offset\<rparr>) = nat offset"
    using na by (simp add: write_pos_def)
  with wi f1 orange show ?thesis
    by (simp add: written_inv_buf_inv)
qed

definition tracked_inv :: "tracked \<Rightarrow> bool" where
  "tracked_inv s = written_inv (fst s) (fst (snd s))"

lemma step_tracked_inv:
  assumes "tracked_inv s" "wf_op op" "step h s op = Some s1"
  shows "tracked_inv s1"
proof -
  obtain fil W hi where s: "s = (fil, W, hi)"
    by (cases s) auto
  have wi: "written_inv fil W"
    using assms(1) s by (simp add: tracked_inv_def)
  show ?thesis
  proof (cases op)
    case (OpWrite p)
    with assms(2,3) s show ?thesis
      by (auto simp: tracked_inv_def split: option.splits sum.splits
          intro: Write_written_inv [OF wi])
  next
    case (OpWriteAt p offset)
    with assms(2,3) s show ?thesis
      using WriteAt_written_inv [OF wi, of p offset h]
      by (auto simp: tracked_inv_def split: option.splits sum.splits)
  next
    case (OpWriteByte b)
    with assms(2,3) s show ?thesis
      using WriteByte_written_inv [OF wi]
      by (auto simp: tracked_inv_def Let_def split: option.splits sum.splits)
  next
    case (OpTruncate sz)
    with assms(2,3) s show ?thesis
      using Truncate_written_inv [OF wi, of sz h]
      by (auto simp: tracked_inv_def split: option.splits sum.splits)
  next
    case (OpGrow n)
    with assms(2,3) s show ?thesis
      by (auto simp: tracked_inv_def split: sum.splits intro: Grow_written_inv [OF wi])
  next
    case (OpSeek offset whence)
    with assms(2,3) s show ?thesis
      using Seek_written_inv [OF wi, of offset h whence]
      by (auto simp: tracked_inv_def split: option.splits)
  qed
qed

lemma run_tracked_inv:
  "tracked_inv s \<Longrightarrow> list_all wf_op ops \<Longrightarrow> run h s ops = Some s1 \<Longrightarrow> tracked_inv s1"
proof (induction ops arbitrary: s)
  case Nil
  then show ?case by simp
next
  case (Cons op ops)
  then obtain s2 where st: "step h s op = Some s2" and r: "run h s2 ops = Some s1"
    by (auto split: option.splits)
  from step_tracked_inv [OF Cons.prems(1) _ st] Cons.prems(2) have "tracked_inv s2"
    by simp
  from Cons.IH [OF this _ r] Cons.prems(2) show ?case
    by simp
qed

definition length_after :: "tracked option \<Rightarrow> nat option" where
  "length_after r = map_option (len \<circ> buf \<circ> fst) r"

definition highest_written :: "tracked option \<Rightarrow> nat option" where
  "highest_written r = map_option (snd \<circ> snd) r"

definition ex_new :: File where
  "ex_new =
     \<lparr>off = 0, buf = \<lparr>content = [], spare = replicate 512 0, isnil = False\<rparr>, flag = 0,
      info = \<lparr>name = ''file'', size' = 0, mode = 0x180\<rparr>,
      parent = None, cursor = 0, entries = []\<rparr>"

lemma ex_new_NewFile: "NewFile ''file'' [] = Inr (Inr ex_new)"
  by (simp add: NewFile_def FileWith_def ValidPath_file make'_def MinRead_def maxAlloc_def
        len_def ex_new_def)

lemmas op_defs =
  Write_def WriteByte_def WriteAt_def Truncate_def Grow_def Seek_def write_pos_def IsDir_def
  ModeDir_def SeekStart_def SeekCurrent_def SeekEnd_def wrap64_def buf_defs

text \<open>
  C3. The claim counts truncate among the operations and says that the length is at
  least the highest offset ever written. After Write of four bytes to the file of
  \<open>NewFile\<close>, \<open>Truncate(0)\<close> leaves the length 0, while offset 4 was written.
\<close>

theorem truncate_shortens_counterexample:
  "highest_written (run ex_heap (ex_new, {}, 0) [OpWrite [0, 1, 2, 3], OpTruncate 0]) = Some 4 \<and>
   length_after (run ex_heap (ex_new, {}, 0) [OpWrite [0, 1, 2, 3], OpTruncate 0]) = Some 0"
  by (simp add: highest_written_def length_after_def ex_new_def op_defs)

text \<open>
  C3, as the code has it. Along every sequence of write, writeAt, writeByte, truncate,
  grow and seek that returns, on a file whose bytes outside the written positions are
  zero: the length stays above every position that was written and not cut off by a
  later truncate, every content byte outside these positions reads as zero, and all
  bytes between the length and the capacity are zero.
\<close>

theorem written_bytes_invariant:
  assumes "tracked_inv (fil, W, hi)" "list_all wf_op ops"
    "run h (fil, W, hi) ops = Some (fil1, W1, hi1)"
  shows "tracked_inv (fil1, W1, hi1) \<and>
         (\<forall>i \<in> W1. i < len (buf fil1)) \<and>
         (\<forall>i < len (buf fil1). i \<notin> W1 \<longrightarrow> content (buf fil1) ! i = 0) \<and>
         (\<forall>x \<in> set (spare (buf fil1)). x = 0)"
proof -
  have t: "tracked_inv (fil1, W1, hi1)"
    using run_tracked_inv [OF assms] .
  then have wi: "written_inv fil1 W1"
    by (simp add: tracked_inv_def)
  then have w: "\<forall>i \<in> W1. i < len (buf fil1)" and z: "\<And>i. i \<notin> W1 \<Longrightarrow> byte_at (buf fil1) i = 0"
    by (simp_all add: written_inv_def)
  have c: "content (buf fil1) ! i = 0" if "i < len (buf fil1)" "i \<notin> W1" for i
    using z [OF that(2)] that(1) by (simp add: byte_at_def cap_def arr_def len_def nth_append)
  have s: "x = 0" if "x \<in> set (spare (buf fil1))" for x
  proof -
    from that obtain j where j: "j < length (spare (buf fil1))" "spare (buf fil1) ! j = x"
      by (auto simp: in_set_conv_nth)
    have "len (buf fil1) + j \<notin> W1"
      using w by auto
    from z [OF this] j show ?thesis
      by (simp add: byte_at_def cap_def arr_def len_def nth_append)
  qed
  from t w c s show ?thesis by blast
qed

lemma ex_file_tracked_inv: "tracked_inv (ex_file, {0..<4}, 4)"
  by (auto simp: tracked_inv_def written_inv_def wf_file_def wf_slice_def ex_file_def byte_at_def
        cap_def len_def maxAlloc_def)

lemma ex_new_tracked_inv: "tracked_inv (ex_new, {}, 0)"
  by (auto simp: tracked_inv_def written_inv_def wf_file_def wf_slice_def ex_new_def byte_at_def
        cap_def len_def arr_def maxAlloc_def)

theorem written_bytes_invariant_witness:
  "tracked_inv (ex_file, {0..<4}, 4) \<and>
   list_all wf_op [OpWrite [9], OpSeek 6 0, OpWrite [7, 8], OpTruncate 3, OpWriteAt [5] 4,
                   OpGrow 10, OpWriteByte 6] \<and>
   (\<exists>fil1 W1 hi1.
      run ex_heap (ex_file, {0..<4}, 4)
        [OpWrite [9], OpSeek 6 0, OpWrite [7, 8], OpTruncate 3, OpWriteAt [5] 4,
         OpGrow 10, OpWriteByte 6] = Some (fil1, W1, hi1) \<and>
      content (buf fil1) = [0, 9, 2, 0, 5, 0, 0, 0, 6] \<and> hi1 = 9 \<and>
      (\<forall>i \<in> W1. i < len (buf fil1)) \<and>
      (\<forall>i < len (buf fil1). i \<notin> W1 \<longrightarrow> content (buf fil1) ! i = 0) \<and>
      (\<forall>x \<in> set (spare (buf fil1)). x = 0))"
proof -
  let ?ops = "[OpWrite [9], OpSeek 6 0, OpWrite [7, 8], OpTruncate 3, OpWriteAt [5] 4,
               OpGrow 10, OpWriteByte 6]"
  have wf: "list_all wf_op ?ops"
    by (simp add: maxAlloc_def)
  have "\<exists>fil1 W1 hi1. run ex_heap (ex_file, {0..<4}, 4) ?ops = Some (fil1, W1, hi1) \<and>
      content (buf fil1) = [0, 9, 2, 0, 5, 0, 0, 0, 6] \<and> hi1 = 9"
    by (simp add: ex_file_def op_defs eval_nat_numeral)
  then obtain fil1 W1 hi1 where r: "run ex_heap (ex_file, {0..<4}, 4) ?ops = Some (fil1, W1, hi1)"
    and c: "content (buf fil1) = [0, 9, 2, 0, 5, 0, 0, 0, 6]" "hi1 = 9"
    by blast
  from written_bytes_invariant [OF ex_file_tracked_inv wf r] r c wf ex_file_tracked_inv
  show ?thesis by blast
qed

end
